theory Spec2Isabelle
  imports Complex_Main
begin

section \<open>Live Series Renderer Core\<close>

text \<open>
  A shallow embedding of the numeric helpers of the live line chart
  (\<^verbatim>\<open>packages/ui/src/charts/live-line-chart.tsx\<close>, \<^verbatim>\<open>live-y-axis.tsx\<close>,
  \<^verbatim>\<open>live-line.tsx\<close>).

  Numbers: the finite values of a JavaScript \<^verbatim>\<open>number\<close> are real numbers, and the model
  computes with \<^typ>\<open>real\<close>. \<^verbatim>\<open>NaN\<close> and the infinities are not values of the model;
  where the source starts a scan from \<^verbatim>\<open>Number.POSITIVE_INFINITY\<close> or
  \<^verbatim>\<open>Number.NEGATIVE_INFINITY\<close> the accumulator is a \<^typ>\<open>real option\<close> whose
  \<^term>\<open>None\<close> stands for that infinity. Array indices and lengths are \<^typ>\<open>nat\<close>.

  Rounding: an arithmetic operation of the source returns the exact result rounded to a
  double. The interval picker, the grid ticks and the rounded animation step below take
  the rounding as a parameter and apply it after every operation, so that their theorems
  hold for every rounding; \<open>fl\<close> is the rounding of IEEE 754 doubles. The other functions
  are written with exact operations: what is proved of them rests on comparisons and on
  the source's own expressions.
\<close>

subsection \<open>Data model\<close>

text \<open>\<^verbatim>\<open>interface LiveLinePoint { time: number; value: number }\<close>\<close>

record LiveLinePoint =
  time :: real
  "value" :: real

text \<open>
  The target range \<^verbatim>\<open>{ yMin, yMax }\<close> and the animation frame
  \<^verbatim>\<open>interface AnimFrame { now; yMin; yMax; displayValue }\<close>. The frame extends the range
  record, so that \<open>yMin\<close> and \<open>yMax\<close> read both.
\<close>

record YRange =
  yMin :: real
  yMax :: real

record AnimFrame = YRange +
  now :: real
  displayValue :: real

subsection \<open>Double arithmetic\<close>

text \<open>
  Rounding to the nearest integer, ties to the even one.
\<close>

definition roundHalfEven :: "real \<Rightarrow> int" where
  "roundHalfEven x =
     (let f = \<lfloor>x\<rfloor> in
      if x - of_int f < 1 / 2 then f
      else if 1 / 2 < x - of_int f then f + 1
      else if even f then f else f + 1)"

text \<open>
  The doubles are the integer multiples \<open>m * 2^k\<close> with \<open>\<bar>m\<bar> < 2^53\<close> and
  \<open>k \<ge> -1074\<close>. \<open>ulpExp x\<close> is the exponent \<open>k\<close> of the doubles around \<open>x\<close>: for
  \<open>2^e \<le> \<bar>x\<bar> < 2^(e+1)\<close> it is \<open>e - 52\<close>, and \<open>-1074\<close> below \<open>2^(-1022)\<close> (gradual
  underflow). \<open>fl x\<close> is the double nearest to \<open>x\<close>, ties to the even significand. The
  largest exponent is not bounded: overflow to \<^verbatim>\<open>Infinity\<close> is not modelled.
\<close>

definition ulpExp :: "real \<Rightarrow> int" where
  "ulpExp x = max \<lfloor>log 2 \<bar>x\<bar>\<rfloor> (- 1022) - 52"

definition fl :: "real \<Rightarrow> real" where
  "fl x = (if x = 0 then 0
           else of_int (roundHalfEven (x / 2 powr of_int (ulpExp x))) * 2 powr of_int (ulpExp x))"

text \<open>
  The arithmetic a function runs on: \<open>rnd\<close> rounds the exact result of \<^verbatim>\<open>+\<close>, \<^verbatim>\<open>-\<close>,
  \<^verbatim>\<open>*\<close> and \<^verbatim>\<open>/\<close>; \<open>flog10\<close> is \<^verbatim>\<open>Math.log10\<close> and \<open>fpow10 k\<close> is
  \<^verbatim>\<open>10 ** k\<close>, two library functions whose last bit depends on the engine.
\<close>

record arith =
  rnd :: "real \<Rightarrow> real"
  flog10 :: "real \<Rightarrow> real"
  fpow10 :: "real \<Rightarrow> real"

text \<open>
  Double arithmetic, with a correctly rounded power. Of the logarithm the source uses the
  floor or the ceiling only, which an approximation changes only next to a power of ten;
  it is taken exact.
\<close>

definition doubleArith :: arith where
  "doubleArith = \<lparr>rnd = fl, flog10 = log 10, fpow10 = (\<lambda>k. fl (10 powr k))\<rparr>"

text \<open>
  What the termination of the interval search needs of the rounding, and what rounding to
  doubles has: zero is exact, a non-negative number rounds to a non-negative one, a
  positive number divided by at least two rounds below the number, and a bounded interval
  rounds into a finite set.
\<close>

definition roundsLikeDouble :: "(real \<Rightarrow> real) \<Rightarrow> bool" where
  "roundsLikeDouble r \<longleftrightarrow>
     r 0 = 0
     \<and> (\<forall>x. 0 \<le> x \<longrightarrow> 0 \<le> r x)
     \<and> (\<forall>x d. 0 < x \<and> 2 \<le> d \<longrightarrow> r (x / d) < x)
     \<and> (\<forall>B. finite (r ` {0..B}))"

subsection \<open>computeTargetRange\<close>

text \<open>
  The scan \<^verbatim>\<open>for (const d of data) { if (d.value < min) min = d.value; if (d.value > max) max = d.value }\<close>
  from \<^verbatim>\<open>min = +Infinity\<close>, \<^verbatim>\<open>max = -Infinity\<close>. A comparison with an infinite
  accumulator (\<^term>\<open>None\<close>) succeeds.
\<close>

definition lowerMin :: "real \<Rightarrow> real option \<Rightarrow> real option" where
  "lowerMin v mn = (case mn of None \<Rightarrow> Some v | Some m \<Rightarrow> if v < m then Some v else Some m)"

definition raiseMax :: "real \<Rightarrow> real option \<Rightarrow> real option" where
  "raiseMax v mx = (case mx of None \<Rightarrow> Some v | Some m \<Rightarrow> if v > m then Some v else Some m)"

fun scanMinMax :: "real list \<Rightarrow> real option \<times> real option \<Rightarrow> real option \<times> real option" where
  "scanMinMax [] acc = acc"
| "scanMinMax (v # vs) (mn, mx) = scanMinMax vs (lowerMin v mn, raiseMax v mx)"

text \<open>
  \<^verbatim>\<open>rawRange * paddingFactor || (exaggerate ? 0.04 : 10)\<close>: the left operand is falsy
  exactly when it is zero.
\<close>

definition computeTargetRange :: "LiveLinePoint list \<Rightarrow> real \<Rightarrow> bool \<Rightarrow> YRange" where
  "computeTargetRange data v exaggerate =
     (if length data = 0 then \<lparr>yMin = 0, yMax = 100\<rparr>
      else
        let (mn0, mx0) = scanMinMax (map value data) (None, None);
            mn = the (lowerMin v mn0);
            mx = the (raiseMax v mx0);
            rawRange = mx - mn;
            paddingFactor = (if exaggerate then 0.03 else 0.15);
            rangePad = (if rawRange * paddingFactor \<noteq> 0 then rawRange * paddingFactor
                        else if exaggerate then 0.04 else 10)
        in \<lparr>yMin = mn - rangePad, yMax = mx + rangePad\<rparr>)"

subsection \<open>nextAnimFrame\<close>

text \<open>
  \<^verbatim>\<open>Date.now()\<close> is the one external read; its result is the parameter \<open>wallClock\<close>.
\<close>

definition nextAnimFrame :: "AnimFrame \<Rightarrow> YRange \<Rightarrow> real \<Rightarrow> real \<Rightarrow> bool \<Rightarrow> real \<Rightarrow> AnimFrame" where
  "nextAnimFrame prev targetRange targetValue speed isPaused wallClock =
     (let nextNow = (if isPaused then now prev else wallClock);
          nextYMin = (if yMin targetRange < yMin prev then yMin targetRange
                      else yMin prev + (yMin targetRange - yMin prev) * speed);
          nextYMax = (if yMax targetRange > yMax prev then yMax targetRange
                      else yMax prev + (yMax targetRange - yMax prev) * speed);
          nextValue = displayValue prev + (targetValue - displayValue prev) * speed
      in \<lparr>yMin = nextYMin, yMax = nextYMax, now = nextNow, displayValue = nextValue\<rparr>)"

text \<open>
  The same step with every arithmetic operation rounded by \<open>r\<close>: the eased expressions are
  \<^verbatim>\<open>prev.yMin + (targetRange.yMin - prev.yMin) * speed\<close> and its two siblings, three
  operations each. The comparisons and the copies of the snap branches are exact.
\<close>

definition nextAnimFrameRnd ::
  "(real \<Rightarrow> real) \<Rightarrow> AnimFrame \<Rightarrow> YRange \<Rightarrow> real \<Rightarrow> real \<Rightarrow> bool \<Rightarrow> real \<Rightarrow> AnimFrame" where
  "nextAnimFrameRnd r prev targetRange targetValue speed isPaused wallClock =
     (let nextNow = (if isPaused then now prev else wallClock);
          nextYMin = (if yMin targetRange < yMin prev then yMin targetRange
                      else r (yMin prev + r (r (yMin targetRange - yMin prev) * speed)));
          nextYMax = (if yMax targetRange > yMax prev then yMax targetRange
                      else r (yMax prev + r (r (yMax targetRange - yMax prev) * speed)));
          nextValue = r (displayValue prev + r (r (targetValue - displayValue prev) * speed))
      in \<lparr>yMin = nextYMin, yMax = nextYMax, now = nextNow, displayValue = nextValue\<rparr>)"

subsection \<open>interpolateAtTime\<close>

text \<open>
  The search loop \<^verbatim>\<open>while (hi - lo > 1) { mid = floor((lo + hi) / 2); ... }\<close>. Both indices
  are natural numbers with \<open>lo \<le> hi\<close> throughout, where truncated subtraction agrees with
  the source's. \<^verbatim>\<open>midPt && midPt.time <= timeSec\<close> is false when \<open>mid\<close> is out of range.
\<close>

function bsearch :: "LiveLinePoint list \<Rightarrow> real \<Rightarrow> nat \<Rightarrow> nat \<Rightarrow> nat \<times> nat" where
  "bsearch points timeSec lo hi =
     (if hi - lo > 1 then
        let mid = (lo + hi) div 2 in
        if mid < length points \<and> time (points ! mid) \<le> timeSec
        then bsearch points timeSec mid hi
        else bsearch points timeSec lo mid
      else (lo, hi))"
  by pat_completeness auto
termination
  by (relation "measure (\<lambda>(points, timeSec, lo, hi). hi - lo)") auto

declare bsearch.simps [simp del]

text \<open>
  The result \<^verbatim>\<open>number | null\<close> is a \<^typ>\<open>real option\<close>; \<^term>\<open>None\<close> is \<^verbatim>\<open>null\<close>.
  \<^verbatim>\<open>points[i]\<close> is \<^verbatim>\<open>undefined\<close> out of range, which the source tests with
  \<^verbatim>\<open>if (!p1) return null\<close>.
\<close>

definition interpolateAtTime :: "LiveLinePoint list \<Rightarrow> real \<Rightarrow> real option" where
  "interpolateAtTime points timeSec =
     (if length points = 0 then None
      else
        let firstPt = points ! 0; lastPt = last points in
        if timeSec \<le> time firstPt then Some (value firstPt)
        else if timeSec \<ge> time lastPt then Some (value lastPt)
        else
          let (lo, hi) = bsearch points timeSec 0 (length points - 1) in
          if \<not> lo < length points then None
          else if \<not> hi < length points then None
          else
            let p1 = points ! lo; p2 = points ! hi; dt = time p2 - time p1 in
            if dt = 0 then Some (value p1)
            else
              let t = (timeSec - time p1) / dt
              in Some (value p1 + (value p2 - value p1) * t))"

subsection \<open>The windowed slice\<close>

text \<open>
  Chart records are \<^verbatim>\<open>Record<string, unknown>\<close>. The fields the chart stores are numbers
  and \<^verbatim>\<open>Date\<close> objects; a key that is absent reads \<^verbatim>\<open>undefined\<close>. A
  \<^verbatim>\<open>Date\<close> is modelled by the millisecond value it was constructed from: the clipping of
  \<^verbatim>\<open>new Date(ms)\<close> to whole milliseconds in the valid range is not modelled.
\<close>

datatype jsval = JNumber real | JDate real

type_synonym chartRecord = "string \<rightharpoonup> jsval"

text \<open>
  \<^verbatim>\<open>xAccessor = (d) => d.date instanceof Date ? d.date : new Date(d.date as number)\<close>,
  read as the milliseconds of the resulting date; without a \<open>date\<close> field the date is
  invalid (\<^term>\<open>None\<close>).
\<close>

definition xAccessor :: "chartRecord \<Rightarrow> real option" where
  "xAccessor d = (case d ''date'' of
                    Some (JDate ms) \<Rightarrow> Some ms
                  | Some (JNumber n) \<Rightarrow> Some n
                  | None \<Rightarrow> None)"

text \<open>
  Modelled from the spec: \<^verbatim>\<open>bisector((d) => d.time).left\<close> of the library d3-array, which
  is not part of the sources; section 4.6 names it a left-bisect. It is the binary search
  for the first index in \<open>[lo, hi)\<close> whose time is not below \<open>x\<close>.
\<close>

function bisectLeft :: "LiveLinePoint list \<Rightarrow> real \<Rightarrow> nat \<Rightarrow> nat \<Rightarrow> nat" where
  "bisectLeft a x lo hi =
     (if lo < hi then
        let mid = (lo + hi) div 2 in
        if time (a ! mid) < x then bisectLeft a x (mid + 1) hi
        else bisectLeft a x lo mid
      else lo)"
  by pat_completeness auto
termination
  by (relation "measure (\<lambda>(a, x, lo, hi). hi - lo)") auto

declare bisectLeft.simps [simp del]

definition bisectTime :: "LiveLinePoint list \<Rightarrow> real \<Rightarrow> nat \<Rightarrow> nat" where
  "bisectTime a x lo = bisectLeft a x lo (length a)"

text \<open>
  The memo \<^verbatim>\<open>contextData\<close> of \<^verbatim>\<open>LiveLineChartInner\<close>, as a function of what it reads:
  the data, the frame's \<open>now\<close> and \<open>displayValue\<close>, the window in milliseconds and the data
  key. In the object literal \<^verbatim>\<open>{ date: ..., [dataKey]: ... }\<close> the later key wins.
\<close>

definition contextData ::
  "LiveLinePoint list \<Rightarrow> real \<Rightarrow> real \<Rightarrow> real \<Rightarrow> string \<Rightarrow> chartRecord list" where
  "contextData data frameNow frameDisplayValue windowMs dataKey =
     (let windowStart = frameNow - windowMs;
          startIdx0 = bisectTime data (windowStart / 1000) 0;
          startIdx = (if startIdx0 > 0 then startIdx0 - 1 else startIdx0);
          sliced = drop startIdx data;
          records = map (\<lambda>p. [''date'' \<mapsto> JDate (time p * 1000), dataKey \<mapsto> JNumber (value p)])
                        sliced
      in records @ [[''date'' \<mapsto> JDate frameNow, dataKey \<mapsto> JNumber frameDisplayValue]])"

text \<open>
  The series that \<^verbatim>\<open>handleMouseMove\<close> builds for the crosshair and hands to
  \<open>interpolateAtTime\<close>.
\<close>

definition hoverSeries :: "LiveLinePoint list \<Rightarrow> real \<Rightarrow> real \<Rightarrow> real \<Rightarrow> LiveLinePoint list" where
  "hoverSeries data frameNow frameDisplayValue windowMs =
     filter (\<lambda>p. time p \<ge> (frameNow - windowMs) / 1000) data
       @ [\<lparr>time = frameNow / 1000, value = frameDisplayValue\<rparr>]"

subsection \<open>pickNiceInterval\<close>

text \<open>\<^verbatim>\<open>divs[i % 3] ?? 2\<close>: the divisor of step \<open>i\<close>, and \<open>2\<close> when the slot is missing.\<close>

definition divAt :: "real list \<Rightarrow> nat \<Rightarrow> real" where
  "divAt divs i = (if i mod 3 < length divs then divs ! (i mod 3) else 2)"

text \<open>
  The loop \<^verbatim>\<open>while ((span / d) * pxPerUnit >= minGap) { span /= d; i++; d = divs[i % 3] ?? 2 }\<close>
  with the rounding \<open>r\<close>: the test rounds the quotient and then the product, and
  \<^verbatim>\<open>span /= d\<close> stores the same rounded quotient. At the loop head \<open>d\<close> is always the
  divisor of step \<open>i\<close>; \<open>spanv\<close> is the variable \<open>span\<close>. The loop need not end (it does
  not for \<open>minGap \<le> 0\<close>), so its result is an option: \<^term>\<open>None\<close> is a run that never
  returns.
\<close>

partial_function (option) spanLoop ::
  "(real \<Rightarrow> real) \<Rightarrow> real list \<Rightarrow> real \<Rightarrow> real \<Rightarrow> real \<Rightarrow> nat \<Rightarrow> real option" where
  "spanLoop r divs pxPerUnit minGap spanv i =
     (if r (r (spanv / divAt divs i) * pxPerUnit) \<ge> minGap
      then spanLoop r divs pxPerUnit minGap (r (spanv / divAt divs i)) (i + 1)
      else Some spanv)"

definition divisorSets :: "real list list" where
  "divisorSets = [[2, 2.5, 2], [2, 2, 2.5], [2.5, 2, 2]]"

text \<open>The starting span \<^verbatim>\<open>10 ** Math.ceil(Math.log10(valRange))\<close>.\<close>

definition startSpan :: "arith \<Rightarrow> real \<Rightarrow> real" where
  "startSpan A valRange = fpow10 A (of_int \<lceil>flog10 A valRange\<rceil>)"

text \<open>
  The loop over the divisor sets. \<open>best\<close> starts at \<^verbatim>\<open>Number.POSITIVE_INFINITY\<close>
  (\<^term>\<open>None\<close>); \<^verbatim>\<open>if (span < best) best = span\<close> is \<^const>\<open>lowerMin\<close>.
\<close>

fun bestSpan :: "arith \<Rightarrow> real \<Rightarrow> real \<Rightarrow> real \<Rightarrow> real list list \<Rightarrow> real option \<Rightarrow> real option option" where
  "bestSpan A valRange pxPerUnit minGap [] best = Some best"
| "bestSpan A valRange pxPerUnit minGap (divs # rest) best =
     (case spanLoop (rnd A) divs pxPerUnit minGap (startSpan A valRange) 0 of
        None \<Rightarrow> None
      | Some spanv \<Rightarrow> bestSpan A valRange pxPerUnit minGap rest (lowerMin spanv best))"

text \<open>
  \<^verbatim>\<open>pxPerUnit = chartHeight / valRange\<close> is rounded once; the band test compares the
  rounded \<^verbatim>\<open>prevInterval * pxPerUnit\<close> with the rounded \<^verbatim>\<open>minGap * 0.5\<close> and
  \<^verbatim>\<open>minGap * 3\<close>.
\<close>

definition pickNiceInterval :: "arith \<Rightarrow> real \<Rightarrow> real \<Rightarrow> real \<Rightarrow> real \<Rightarrow> real option" where
  "pickNiceInterval A valRange chartHeight minGap prevInterval =
     (if valRange \<le> 0 \<or> chartHeight \<le> 0 then Some 1
      else
        let pxPerUnit = rnd A (chartHeight / valRange) in
        if prevInterval > 0
           \<and> rnd A (prevInterval * pxPerUnit) \<ge> rnd A (minGap * 0.5)
           \<and> rnd A (prevInterval * pxPerUnit) \<le> rnd A (minGap * 3)
        then Some prevInterval
        else
          (case bestSpan A valRange pxPerUnit minGap divisorSets None of
             None \<Rightarrow> None
           | Some None \<Rightarrow> Some (rnd A (valRange / 5))
           | Some (Some best) \<Rightarrow> Some best))"

text \<open>
  \<open>divFrom r divs i n s\<close> is the span reached from \<open>s\<close> by the \<open>n\<close> rounded divisions of
  steps \<open>i, ..., i + n - 1\<close>. \<open>searchStops r divs px g s n\<close> says that the search from \<open>s\<close>
  makes exactly \<open>n\<close> divisions: its first \<open>n\<close> loop tests succeed and the next one fails.
\<close>

fun divFrom :: "(real \<Rightarrow> real) \<Rightarrow> real list \<Rightarrow> nat \<Rightarrow> nat \<Rightarrow> real \<Rightarrow> real" where
  "divFrom r divs i 0 s = s"
| "divFrom r divs i (Suc n) s = divFrom r divs (Suc i) n (r (s / divAt divs i))"

definition searchStops :: "(real \<Rightarrow> real) \<Rightarrow> real list \<Rightarrow> real \<Rightarrow> real \<Rightarrow> real \<Rightarrow> nat \<Rightarrow> bool" where
  "searchStops r divs px g s n \<longleftrightarrow>
     r (r (divFrom r divs 0 n s / divAt divs n) * px) < g
     \<and> (\<forall>m < n. g \<le> r (r (divFrom r divs 0 m s / divAt divs m) * px))"

subsection \<open>niceGridTicks\<close>

text \<open>
  The snapping of \<open>rawStep\<close> to \<open>1\<close>, \<open>2\<close>, \<open>5\<close> or \<open>10\<close> times its power of ten
  (the body of \<open>niceGridTicks\<close> from \<^verbatim>\<open>const magnitude\<close> to the end of the \<^verbatim>\<open>if\<close> chain).
\<close>

definition niceStepOf :: "arith \<Rightarrow> real \<Rightarrow> real" where
  "niceStepOf A rawStep =
     (let magnitude = fpow10 A (of_int \<lfloor>flog10 A rawStep\<rfloor>);
          residual = rnd A (rawStep / magnitude)
      in if residual \<le> 1.5 then magnitude
         else if residual \<le> 3 then rnd A (2 * magnitude)
         else if residual \<le> 7 then rnd A (5 * magnitude)
         else rnd A (10 * magnitude))"

text \<open>
  \<^verbatim>\<open>for (let v = start; v <= max; v += niceStep) ticks.push(v)\<close> with the rounding
  \<open>r\<close>; a run that never returns is \<^term>\<open>None\<close>.
\<close>

partial_function (option) tickLoop ::
  "(real \<Rightarrow> real) \<Rightarrow> real \<Rightarrow> real \<Rightarrow> real \<Rightarrow> real list \<Rightarrow> real list option" where
  "tickLoop r mx niceStep v ticks =
     (if v \<le> mx then tickLoop r mx niceStep (r (v + niceStep)) (ticks @ [v]) else Some ticks)"

text \<open>
  \<open>tickFrom r niceStep v n\<close> is the loop variable after \<open>n\<close> rounded additions
  \<^verbatim>\<open>v += niceStep\<close> from \<open>v\<close>.
\<close>

fun tickFrom :: "(real \<Rightarrow> real) \<Rightarrow> real \<Rightarrow> real \<Rightarrow> nat \<Rightarrow> real" where
  "tickFrom r niceStep v 0 = v"
| "tickFrom r niceStep v (Suc n) = tickFrom r niceStep (r (v + niceStep)) n"

text \<open>
  Where the source computes with \<^verbatim>\<open>Infinity\<close> and \<^verbatim>\<open>NaN\<close> the start is
  \<^verbatim>\<open>NaN\<close>, the loop test \<^verbatim>\<open>NaN <= max\<close> fails at once and the result is empty:
  \<^item> with \<open>count = 0\<close> the raw step is \<^verbatim>\<open>Infinity\<close>, the residual \<^verbatim>\<open>NaN\<close>, the nice
    step \<^verbatim>\<open>Infinity\<close> and the start \<^verbatim>\<open>0 * Infinity\<close>; with \<open>count < 0\<close> the logarithm of
    the negative raw step is \<^verbatim>\<open>NaN\<close>;
  \<^item> a raw step that underflows to \<open>0\<close> has the logarithm \<^verbatim>\<open>-Infinity\<close>, the magnitude
    \<open>0\<close> and the residual \<^verbatim>\<open>0 / 0\<close>;
  \<^item> a magnitude that underflows to \<open>0\<close> makes the nice step \<open>0\<close> and the start
    \<^verbatim>\<open>ceil(min / 0) * 0\<close>.
\<close>

definition niceGridTicks :: "arith \<Rightarrow> real \<Rightarrow> real \<Rightarrow> real \<Rightarrow> real list option" where
  "niceGridTicks A mn mx count =
     (let range = rnd A (mx - mn) in
      if range \<le> 0 then Some []
      else if count \<le> 0 then Some []
      else
        let rawStep = rnd A (range / count) in
        if rawStep = 0 then Some []
        else
          let niceStep = niceStepOf A rawStep in
          if niceStep = 0 then Some []
          else
            let start = rnd A (of_int \<lceil>rnd A (mn / niceStep)\<rceil> * niceStep)
            in tickLoop (rnd A) mx niceStep start [])"

subsection \<open>detectMomentum\<close>

text \<open>\<^verbatim>\<open>type Momentum = "up" | "down" | "flat"\<close>\<close>

datatype Momentum = Up | Down | Flat

text \<open>The values \<open>v\<close> of the scan with \<^verbatim>\<open>typeof v === "number"\<close>.\<close>

fun numbersOf :: "jsval option list \<Rightarrow> real list" where
  "numbersOf [] = []"
| "numbersOf (Some (JNumber x) # vs) = x # numbersOf vs"
| "numbersOf (_ # vs) = numbersOf vs"

text \<open>
  \<^verbatim>\<open>(v as number) ?? 0\<close> as an operand of the subtraction: \<^verbatim>\<open>undefined\<close> becomes
  \<open>0\<close>, and a \<^verbatim>\<open>Date\<close> is converted to its milliseconds.
\<close>

fun toNum :: "jsval option \<Rightarrow> real" where
  "toNum None = 0"
| "toNum (Some (JNumber x)) = x"
| "toNum (Some (JDate ms)) = ms"

text \<open>
  \<open>lookback\<close> is an integer. When the window holds no number, \<open>min\<close> and \<open>max\<close> keep their
  infinite initial values: the range \<^verbatim>\<open>-Infinity - Infinity\<close> is not zero, the threshold
  is \<^verbatim>\<open>-Infinity\<close>, and the finite \<open>delta\<close> exceeds it, so the result is \<open>up\<close>.
  \<^verbatim>\<open>data[tailStart]\<close> is \<^verbatim>\<open>undefined\<close> out of range.
\<close>

definition detectMomentum :: "chartRecord list \<Rightarrow> string \<Rightarrow> int \<Rightarrow> Momentum" where
  "detectMomentum data dataKey lookback =
     (if length data < 5 then Flat
      else
        let start = nat (max 0 (int (length data) - lookback));
            (mn, mx) = scanMinMax (numbersOf (map (\<lambda>r. r dataKey) (drop start data))) (None, None)
        in case (mn, mx) of
             (Some lo, Some hi) \<Rightarrow>
               let range = hi - lo in
               if range = 0 then Flat
               else
                 let tailStart = max start (length data - 5);
                     first = toNum (if tailStart < length data then (data ! tailStart) dataKey
                                    else None);
                     lastv = toNum ((last data) dataKey);
                     delta = lastv - first;
                     threshold = range * 0.12
                 in if delta > threshold then Up
                    else if delta < - threshold then Down
                    else Flat
           | _ \<Rightarrow> Up)"

section \<open>Properties\<close>

subsection \<open>Rounding to doubles\<close>

text \<open>
  The rounding error of \<open>fl\<close> is at most half a unit in the last place; \<open>fl\<close> keeps the
  sign, is odd, and has finitely many values on a bounded interval.
\<close>

lemma roundHalfEven_error: "\<bar>of_int (roundHalfEven x) - x\<bar> \<le> 1 / 2"
proof -
  have "of_int \<lfloor>x\<rfloor> \<le> x" "x < of_int \<lfloor>x\<rfloor> + 1" by linarith+
  then show ?thesis by (auto simp: roundHalfEven_def Let_def)
qed

lemma roundHalfEven_nonneg: "0 \<le> x \<Longrightarrow> 0 \<le> roundHalfEven x"
  by (auto simp: roundHalfEven_def Let_def)

lemma roundHalfEven_small:
  assumes "0 \<le> x" "x \<le> 1 / 2"
  shows "roundHalfEven x = 0"
proof -
  from assms have "\<lfloor>x\<rfloor> = 0" by linarith
  with assms show ?thesis by (auto simp: roundHalfEven_def Let_def)
qed

lemma fl_nonneg: "0 \<le> x \<Longrightarrow> 0 \<le> fl x"
  by (simp add: fl_def roundHalfEven_nonneg)

lemma fl_error: "\<bar>fl x - x\<bar> \<le> 2 powr of_int (ulpExp x) / 2"
proof (cases "x = 0")
  case True
  then show ?thesis by (simp add: fl_def)
next
  case False
  let ?u = "2 powr of_int (ulpExp x) :: real"
  have u: "0 < ?u" by simp
  have "fl x - x = (of_int (roundHalfEven (x / ?u)) - x / ?u) * ?u"
    using False u by (simp add: fl_def algebra_simps)
  then have "\<bar>fl x - x\<bar> = \<bar>of_int (roundHalfEven (x / ?u)) - x / ?u\<bar> * ?u"
    using u by (simp add: abs_mult)
  also have "\<dots> \<le> 1 / 2 * ?u"
    using roundHalfEven_error[of "x / ?u"] u by (intro mult_right_mono) simp_all
  finally show ?thesis by simp
qed

lemma ulp_normal:
  assumes "2 powr (- 1022) \<le> \<bar>x\<bar>"
  shows "2 powr of_int (ulpExp x) \<le> \<bar>x\<bar> * 2 powr (- 52)"
proof -
  have "0 < (2::real) powr (- 1022)" by simp
  with assms have pos: "0 < \<bar>x\<bar>" by linarith
  have "- 1022 \<le> log 2 \<bar>x\<bar>" using assms pos by (simp add: le_log_iff)
  then have "- 1022 \<le> \<lfloor>log 2 \<bar>x\<bar>\<rfloor>" by linarith
  then have e: "ulpExp x = \<lfloor>log 2 \<bar>x\<bar>\<rfloor> - 52" by (simp add: ulpExp_def)
  have "2 powr of_int \<lfloor>log 2 \<bar>x\<bar>\<rfloor> \<le> 2 powr (log 2 \<bar>x\<bar>)" by (intro powr_mono) simp_all
  also have "\<dots> = \<bar>x\<bar>" using pos by simp
  finally have "2 powr of_int \<lfloor>log 2 \<bar>x\<bar>\<rfloor> * 2 powr (- 52) \<le> \<bar>x\<bar> * 2 powr (- 52)"
    by (intro mult_right_mono) simp_all
  then show ?thesis by (simp add: e powr_add[symmetric])
qed

lemma ulp_subnormal:
  assumes "\<bar>x\<bar> < 2 powr (- 1022)" "x \<noteq> 0"
  shows "ulpExp x = - 1074"
proof -
  have pos: "0 < \<bar>x\<bar>" using assms(2) by simp
  have "log 2 \<bar>x\<bar> < - 1022" using assms(1) pos by (simp add: log_less_iff)
  then have "\<lfloor>log 2 \<bar>x\<bar>\<rfloor> \<le> - 1022" by linarith
  then show ?thesis by (simp add: ulpExp_def)
qed

lemma ulp_le_self:
  assumes "2 powr (- 1022) \<le> x"
  shows "2 powr of_int (ulpExp x) \<le> x"
proof -
  have "0 < (2::real) powr (- 1022)" by simp
  with assms have xp: "0 < x" by linarith
  then have ax: "\<bar>x\<bar> = x" by simp
  from assms have "2 powr (- 1022) \<le> \<bar>x\<bar>" by (simp only: ax)
  from ulp_normal[OF this] have a: "2 powr of_int (ulpExp x) \<le> x * 2 powr (- 52)"
    by (simp only: ax)
  have "(2::real) powr (- 52) \<le> 2 powr 0" by (intro powr_mono) simp_all
  then have "x * 2 powr (- 52) \<le> x * 1" using xp by (intro mult_left_mono) simp_all
  with a show ?thesis by simp
qed

lemma fl_normal_upper:
  assumes "2 powr (- 1022) \<le> y"
  shows "fl y \<le> y + y / 2"
proof -
  define u :: real where "u = 2 powr of_int (ulpExp y)"
  have "u \<le> y" unfolding u_def using assms by (rule ulp_le_self)
  moreover have "\<bar>fl y - y\<bar> \<le> u / 2" unfolding u_def by (rule fl_error)
  ultimately show ?thesis by linarith
qed

lemma fl_subnormal_upper:
  assumes "\<bar>y\<bar> < 2 powr (- 1022)" "y \<noteq> 0"
  shows "fl y \<le> y + 2 powr (- 1074) / 2"
proof -
  define m :: real where "m = 2 powr (- 1074)"
  from assms have "ulpExp y = - 1074" by (rule ulp_subnormal)
  with fl_error[of y] have "\<bar>fl y - y\<bar> \<le> m / 2" by (simp add: m_def)
  then have "fl y \<le> y + m / 2" by linarith
  then show ?thesis by (simp only: m_def)
qed

lemma fl_halving:
  assumes x: "0 < x" and d: "2 \<le> d"
  shows "fl (x / d) < x"
proof -
  let ?y = "x / d"
  from x d have y: "0 < ?y" by simp
  have dpos: "0 < d" using d by simp
  have "2 * x \<le> x * d" using x d by simp
  then have y2: "2 * ?y \<le> x" using dpos by (simp add: pos_divide_le_eq)
  show ?thesis
  proof (cases "2 powr (- 1022) \<le> ?y")
    case True
    define z where "z = x / d"
    from fl_normal_upper[OF True] have "fl z \<le> z + z / 2" by (simp only: z_def)
    moreover from y have "0 < z" by (simp only: z_def)
    moreover from y2 have "2 * z \<le> x" by (simp only: z_def)
    ultimately have "fl z < x" by linarith
    then show ?thesis by (simp only: z_def)
  next
    case False
    let ?m = "2 powr (- 1074) :: real"
    have m: "0 < ?m" by simp
    have ay: "\<bar>?y\<bar> = ?y" using y by (rule abs_of_pos)
    have ny: "?y \<noteq> 0" using y by (rule less_imp_neq[THEN not_sym])
    from False have "\<bar>?y\<bar> < 2 powr (- 1022)" by (simp only: ay not_le)
    from ulp_subnormal[OF this ny] have u: "ulpExp ?y = - 1074" .
    from ny have fly: "fl ?y = of_int (roundHalfEven (?y / ?m)) * ?m"
      by (simp only: fl_def u if_False) simp
    define z where "z = x / d"
    define t where "t = z / ?m"
    have z: "0 < z" "2 * z \<le> x" using y y2 by (simp_all only: z_def)
    have t: "0 < t" unfolding t_def using z(1) m by (rule divide_pos_pos)
    have tm: "t * ?m = z" unfolding t_def using m by simp
    have flz: "fl z = of_int (roundHalfEven t) * ?m" using fly by (simp only: z_def t_def)
    have "fl z < x"
    proof (cases "t \<le> 1 / 2")
      case True
      with t have "roundHalfEven t = 0" by (intro roundHalfEven_small) simp_all
      with flz x show ?thesis by simp
    next
      case False
      with roundHalfEven_error[of t] have "of_int (roundHalfEven t) < 2 * t" by linarith
      then have "of_int (roundHalfEven t) * ?m < 2 * t * ?m"
        using m by (intro mult_strict_right_mono) simp_all
      also have "\<dots> = 2 * z" using tm by simp
      finally show ?thesis using flz z(2) by simp
    qed
    then show ?thesis by (simp only: z_def)
  qed
qed

lemma ulpExp_ge: "- 1074 \<le> ulpExp x"
  by (simp add: ulpExp_def)

lemma fl_multiple: "\<exists>n::int. fl x = of_int n * 2 powr (- 1074)"
proof (cases "x = 0")
  case True
  then have "fl x = of_int 0 * 2 powr (- 1074)" by (simp add: fl_def)
  then show ?thesis ..
next
  case False
  let ?k = "ulpExp x"
  let ?j = "nat (?k + 1074)"
  have "real_of_int ?k = real ?j + (- 1074)" using ulpExp_ge[of x] by simp
  then have "2 powr of_int ?k = 2 powr (real ?j) * 2 powr (- 1074)"
    by (simp only: powr_add)
  also have "(2::real) powr (real ?j) = of_int (2 ^ ?j)" by (simp add: powr_realpow)
  finally have "fl x = of_int (roundHalfEven (x / 2 powr of_int ?k) * 2 ^ ?j) * 2 powr (- 1074)"
    using False by (simp add: fl_def)
  then show ?thesis ..
qed

lemma fl_upper:
  assumes "0 \<le> x"
  shows "fl x \<le> 2 * x + 2 powr (- 1074)"
proof (cases "2 powr (- 1022) \<le> x")
  case True
  from fl_normal_upper[OF this] have "fl x \<le> x + x / 2" .
  moreover have "0 < (2::real) powr (- 1074)" by simp
  ultimately show ?thesis using assms by linarith
next
  case False
  show ?thesis
  proof (cases "x = 0")
    case True
    then show ?thesis by (simp add: fl_def)
  next
    case nz: False
    with False assms have "fl x \<le> x + 2 powr (- 1074) / 2"
      by (intro fl_subnormal_upper) simp_all
    moreover have "0 < (2::real) powr (- 1074)" by simp
    ultimately show ?thesis using assms by linarith
  qed
qed

lemma fl_finite: "finite (fl ` {0..B})"
proof -
  let ?m = "2 powr (- 1074) :: real"
  let ?N = "\<lfloor>(2 * B + ?m) / ?m\<rfloor>"
  have m: "0 < ?m" by simp
  have "fl ` {0..B} \<subseteq> (\<lambda>n. of_int n * ?m) ` {0..?N}"
  proof
    fix y assume "y \<in> fl ` {0..B}"
    then obtain x where x: "0 \<le> x" "x \<le> B" "y = fl x" by auto
    from fl_multiple[of x] obtain n :: int where n: "fl x = of_int n * ?m" by blast
    have "0 \<le> of_int n * ?m" using fl_nonneg[OF x(1)] n by simp
    then have "0 \<le> (of_int n :: real)" using m by (simp add: zero_le_mult_iff)
    then have n0: "0 \<le> n" by simp
    have "of_int n * ?m \<le> 2 * B + ?m" using fl_upper[OF x(1)] x(2) n by simp
    then have "of_int n \<le> (2 * B + ?m) / ?m" using m by (simp add: pos_le_divide_eq)
    then have "n \<le> ?N" by (simp add: le_floor_iff)
    with n0 x(3) n show "y \<in> (\<lambda>n. of_int n * ?m) ` {0..?N}" by auto
  qed
  then show ?thesis by (rule finite_subset) simp
qed

lemma roundsLikeDouble_fl: "roundsLikeDouble fl"
  unfolding roundsLikeDouble_def
proof (intro conjI allI impI)
  show "fl 0 = 0" by (simp add: fl_def)
next
  fix x :: real assume "0 \<le> x"
  then show "0 \<le> fl x" by (rule fl_nonneg)
next
  fix x d :: real assume "0 < x \<and> 2 \<le> d"
  then show "fl (x / d) < x" using fl_halving by blast
next
  fix B show "finite (fl ` {0..B})" by (rule fl_finite)
qed

lemma roundHalfEven_nonpos: "x \<le> 0 \<Longrightarrow> roundHalfEven x \<le> 0"
proof -
  assume x: "x \<le> 0"
  show ?thesis
  proof (cases "x = 0")
    case True
    then show ?thesis by (simp add: roundHalfEven_def)
  next
    case False
    with x have "x < 0" by simp
    then have "\<lfloor>x\<rfloor> \<le> - 1" by linarith
    then show ?thesis by (auto simp: roundHalfEven_def Let_def)
  qed
qed

lemma fl_nonpos: "x \<le> 0 \<Longrightarrow> fl x \<le> 0"
proof -
  assume x: "x \<le> 0"
  have "x / 2 powr of_int (ulpExp x) \<le> 0" using x by (simp add: divide_le_0_iff)
  then have "roundHalfEven (x / 2 powr of_int (ulpExp x)) \<le> 0" by (rule roundHalfEven_nonpos)
  then have "of_int (roundHalfEven (x / 2 powr of_int (ulpExp x))) * 2 powr of_int (ulpExp x)
               \<le> (0::real)"
    by (intro mult_nonpos_nonneg) simp_all
  then show ?thesis by (simp add: fl_def)
qed

lemma fl_lower:
  assumes "2 powr (- 1022) \<le> x"
  shows "x - x * 2 powr (- 52) / 2 \<le> fl x"
proof -
  have "0 < (2::real) powr (- 1022)" by simp
  with assms have xp: "0 < x" by linarith
  define u :: real where "u = 2 powr of_int (ulpExp x)"
  define t :: real where "t = x * 2 powr (- 52)"
  have "u \<le> \<bar>x\<bar> * 2 powr (- 52)" unfolding u_def using assms xp by (intro ulp_normal) simp
  then have ut: "u \<le> t" using xp by (simp add: t_def)
  have "\<bar>fl x - x\<bar> \<le> u / 2" unfolding u_def by (rule fl_error)
  then have "x - t / 2 \<le> fl x" using ut by linarith
  then show ?thesis by (simp add: t_def)
qed

lemma fl_progress:
  assumes s: "1 \<le> s" and v: "0 \<le> v" and b: "v + s \<le> 2 ^ 52"
  shows "v < fl (v + s)"
proof -
  define x where "x = v + s"
  define t :: real where "t = x * 2 powr (- 52)"
  have x1: "1 \<le> x" using s v by (simp add: x_def)
  have "(2::real) powr (- 1022) \<le> 2 powr 0" by (intro powr_mono) simp_all
  then have "2 powr (- 1022) \<le> x" using x1 by simp
  then have "x - x * 2 powr (- 52) / 2 \<le> fl x" by (rule fl_lower)
  then have lo: "x - t / 2 \<le> fl x" by (simp add: t_def)
  have "x * 2 powr (- 52) \<le> 2 ^ 52 * 2 powr (- 52)"
    using b by (intro mult_right_mono) (simp_all add: x_def)
  also have "\<dots> = (1::real)" by (simp add: powr_neg_numeral)
  finally have "t \<le> 1" by (simp add: t_def)
  with lo have "x - 1 / 2 \<le> fl x" by linarith
  then show ?thesis using s by (simp add: x_def)
qed

lemma roundHalfEven_minus: "roundHalfEven (- x) = - roundHalfEven x"
proof (cases "x = of_int \<lfloor>x\<rfloor>")
  case True
  then obtain n :: int where "x = of_int n" ..
  then show ?thesis by (simp add: roundHalfEven_def del: of_int_minus add: of_int_minus[symmetric])
next
  case False
  then have c: "\<lceil>x\<rceil> = \<lfloor>x\<rfloor> + 1" by (simp add: ceiling_altdef)
  have f: "\<lfloor>- x\<rfloor> = - \<lfloor>x\<rfloor> - 1" using c by (simp add: floor_minus)
  have b: "of_int \<lfloor>x\<rfloor> < x" "x < of_int \<lfloor>x\<rfloor> + 1" using False by linarith+
  show ?thesis
    unfolding roundHalfEven_def Let_def f using b by auto
qed

lemma fl_minus: "fl (- x) = - fl x"
  by (simp add: fl_def ulpExp_def roundHalfEven_minus)

lemma fl_finite_interval: "finite (fl ` {a..b})"
proof -
  define B where "B = max \<bar>a\<bar> \<bar>b\<bar>"
  have "fl ` {a..b} \<subseteq> fl ` {0..B} \<union> uminus ` fl ` {0..B}"
  proof
    fix y assume "y \<in> fl ` {a..b}"
    then obtain x where x: "a \<le> x" "x \<le> b" "y = fl x" by auto
    show "y \<in> fl ` {0..B} \<union> uminus ` fl ` {0..B}"
    proof (cases "0 \<le> x")
      case True
      then have "x \<in> {0..B}" using x by (auto simp: B_def)
      then show ?thesis using x(3) by blast
    next
      case False
      then have "- x \<in> {0..B}" using x by (auto simp: B_def)
      then have "fl (- x) \<in> fl ` {0..B}" by (rule imageI)
      then have "- fl (- x) \<in> uminus ` fl ` {0..B}" by (rule imageI)
      then show ?thesis using x(3) by (simp add: fl_minus)
    qed
  qed
  moreover have "finite (fl ` {0..B} \<union> uminus ` fl ` {0..B})"
    using fl_finite[of B] by simp
  ultimately show ?thesis by (rule finite_subset)
qed

text \<open>
  The value of \<open>fl\<close> at a number whose binary exponent is known, and at the numbers the
  examples below compute with: \<open>x = c \<Longrightarrow> fl x = c'\<close> rewrites \<open>fl x\<close> once \<open>x\<close> evaluates
  to \<open>c\<close>.
\<close>

lemma ulpExp_eq:
  assumes "2 powr of_int e \<le> \<bar>x\<bar>" "\<bar>x\<bar> < 2 powr of_int (e + 1)" "- 1022 \<le> e"
  shows "ulpExp x = e - 52"
proof -
  have "0 < (2::real) powr of_int e" by simp
  with assms(1) have "0 < \<bar>x\<bar>" by linarith
  then have "\<lfloor>log 2 \<bar>x\<bar>\<rfloor> = e"
    using assms(1,2) by (subst floor_log_eq_powr_iff) simp_all
  with assms(3) show ?thesis by (simp add: ulpExp_def)
qed

lemma fl_eval_neg:
  fixes n :: nat
  assumes "2 ^ 52 \<le> \<bar>x\<bar> * 2 ^ n" "\<bar>x\<bar> * 2 ^ n < 2 ^ 53" "n \<le> 1074"
  shows "fl x = of_int (roundHalfEven (x * 2 ^ n)) / 2 ^ n"
proof -
  let ?e = "52 - int n"
  have p: "2 powr (- real n) = 1 / (2::real) ^ n"
    by (simp add: powr_minus powr_realpow divide_inverse)
  have a: "2 powr of_int ?e = (2::real) ^ 52 / 2 ^ n"
    by (simp add: powr_diff powr_realpow)
  have b: "2 powr of_int (?e + 1) = (2::real) ^ 53 / 2 ^ n"
    by (simp add: powr_diff powr_add powr_realpow)
  have "2 powr of_int ?e \<le> \<bar>x\<bar>" unfolding a using assms(1) by (simp add: pos_divide_le_eq)
  moreover have "\<bar>x\<bar> < 2 powr of_int (?e + 1)" unfolding b using assms(2) by (simp add: pos_less_divide_eq)
  moreover have "- 1022 \<le> ?e" using assms(3) by simp
  ultimately have u: "ulpExp x = - int n" using ulpExp_eq[of ?e x] by simp
  from assms(1) have "x \<noteq> 0" by auto
  then show ?thesis by (simp add: fl_def u p)
qed

lemma fl_eval_pos:
  fixes n :: nat
  assumes "2 ^ 52 * 2 ^ n \<le> \<bar>x\<bar>" "\<bar>x\<bar> < 2 ^ 53 * 2 ^ n"
  shows "fl x = of_int (roundHalfEven (x / 2 ^ n)) * 2 ^ n"
proof -
  let ?e = "52 + int n"
  have a: "2 powr of_int ?e = (2::real) ^ 52 * 2 ^ n"
    by (simp add: powr_add powr_realpow)
  have b: "2 powr of_int (?e + 1) = (2::real) ^ 53 * 2 ^ n"
    by (simp add: powr_add powr_realpow)
  have "2 powr of_int ?e \<le> \<bar>x\<bar>" unfolding a using assms(1) by simp
  moreover have "\<bar>x\<bar> < 2 powr of_int (?e + 1)" unfolding b using assms(2) by simp
  ultimately have u: "ulpExp x = int n" using ulpExp_eq[of ?e x] by simp
  have "0 < (2::real) ^ 52 * 2 ^ n" by simp
  with assms(1) have "0 < \<bar>x\<bar>" by linarith
  then have "x \<noteq> 0" by simp
  then show ?thesis by (simp add: fl_def u powr_realpow)
qed

lemma fl_zero: "fl 0 = 0"
  by (simp add: fl_def)

lemma fl_at_5: "x = 5 \<Longrightarrow> fl x = 5"
  by (erule ssubst, subst fl_eval_neg[where n = 50]) (simp_all add: roundHalfEven_def)

lemma fl_at_10: "x = 10 \<Longrightarrow> fl x = 10"
  by (erule ssubst, subst fl_eval_neg[where n = 49]) (simp_all add: roundHalfEven_def)








subsection \<open>LiveFrameAnimator\<close>

text \<open>
  C2. For every previous frame, target range, target value and ease speed, the transition
  snaps \<open>yMax\<close> to the target exactly when the target lies above the previous \<open>yMax\<close> and
  eases it by \<open>prev.yMax + (target.yMax - prev.yMax) * easeSpeed\<close> otherwise; symmetrically
  \<open>yMin\<close> snaps exactly when the target lies below the previous \<open>yMin\<close> and is eased
  otherwise; the display value is always eased, with no snap case.
\<close>

theorem nextAnimFrame_transition:
  fixes prev :: AnimFrame and target :: YRange
    and targetValue easeSpeed wallClock :: real and paused :: bool
  defines "next \<equiv> nextAnimFrame prev target targetValue easeSpeed paused wallClock"
  shows "(yMax target > yMax prev \<longrightarrow> yMax next = yMax target)
       \<and> (\<not> yMax target > yMax prev \<longrightarrow>
            yMax next = yMax prev + (yMax target - yMax prev) * easeSpeed)
       \<and> (yMin target < yMin prev \<longrightarrow> yMin next = yMin target)
       \<and> (\<not> yMin target < yMin prev \<longrightarrow>
            yMin next = yMin prev + (yMin target - yMin prev) * easeSpeed)
       \<and> displayValue next = displayValue prev + (targetValue - displayValue prev) * easeSpeed"
  by (simp add: next_def nextAnimFrame_def)

theorem nextAnimFrame_transition_witness:
  "(150::real) > 100
   \<and> yMax (nextAnimFrame \<lparr>yMin = 0, yMax = 100, now = 0, displayValue = 1\<rparr>
              \<lparr>yMin = 0, yMax = 150\<rparr> 2 (2 / 25) False 16) = 150
   \<and> \<not> (90::real) > 100
   \<and> yMax (nextAnimFrame \<lparr>yMin = 0, yMax = 100, now = 0, displayValue = 1\<rparr>
              \<lparr>yMin = 0, yMax = 90\<rparr> 2 (2 / 25) False 16) = 100 + (90 - 100) * (2 / 25)
   \<and> (-5::real) < 0
   \<and> yMin (nextAnimFrame \<lparr>yMin = 0, yMax = 100, now = 0, displayValue = 1\<rparr>
              \<lparr>yMin = -5, yMax = 90\<rparr> 2 (2 / 25) False 16) = -5
   \<and> \<not> (10::real) < 0
   \<and> yMin (nextAnimFrame \<lparr>yMin = 0, yMax = 100, now = 0, displayValue = 1\<rparr>
              \<lparr>yMin = 10, yMax = 90\<rparr> 2 (2 / 25) False 16) = 0 + (10 - 0) * (2 / 25)"
  using nextAnimFrame_transition
          [where prev = "\<lparr>yMin = 0, yMax = 100, now = 0, displayValue = 1\<rparr>" and target = "\<lparr>yMin = 0, yMax = 150\<rparr>"
              and targetValue = 2 and easeSpeed = "2 / 25" and wallClock = 16 and paused = False]
        nextAnimFrame_transition
          [where prev = "\<lparr>yMin = 0, yMax = 100, now = 0, displayValue = 1\<rparr>" and target = "\<lparr>yMin = 0, yMax = 90\<rparr>"
              and targetValue = 2 and easeSpeed = "2 / 25" and wallClock = 16 and paused = False]
        nextAnimFrame_transition
          [where prev = "\<lparr>yMin = 0, yMax = 100, now = 0, displayValue = 1\<rparr>" and target = "\<lparr>yMin = -5, yMax = 90\<rparr>"
              and targetValue = 2 and easeSpeed = "2 / 25" and wallClock = 16 and paused = False]
        nextAnimFrame_transition
          [where prev = "\<lparr>yMin = 0, yMax = 100, now = 0, displayValue = 1\<rparr>" and target = "\<lparr>yMin = 10, yMax = 90\<rparr>"
              and targetValue = 2 and easeSpeed = "2 / 25" and wallClock = 16 and paused = False]
  by simp

lemma nextAnimFrameRnd_exact: "nextAnimFrameRnd (\<lambda>x. x) = nextAnimFrame"
  by (intro ext) (simp add: nextAnimFrameRnd_def nextAnimFrame_def)




text \<open>
  C10. On an empty series \<open>computeTargetRange\<close> returns the fixed range
  \<open>{yMin: 0, yMax: 100}\<close> for every live value and both padding modes.
\<close>

theorem computeTargetRange_empty:
  "computeTargetRange [] v exaggerate = \<lparr>yMin = 0, yMax = 100\<rparr>"
  by (simp add: computeTargetRange_def)

subsection \<open>SeriesInterpolator\<close>

lemma bsearch_step: "lo < hi \<Longrightarrow> bsearch ps t lo hi = (l, h) \<Longrightarrow> lo \<le> l \<and> h \<le> hi \<and> h = Suc l"
proof (induction ps t lo hi rule: bsearch.induct)
  case (1 points timeSec lo hi)
  show ?case
  proof (cases "hi - lo > 1")
    case False
    with "1.prems" show ?thesis by (simp add: bsearch.simps[of points timeSec lo hi])
  next
    case True
    let ?mid = "(lo + hi) div 2"
    from True have m: "lo < ?mid" "?mid < hi" by linarith+
    show ?thesis
    proof (cases "?mid < length points \<and> time (points ! ?mid) \<le> timeSec")
      case c: True
      with True "1.prems" have "bsearch points timeSec ?mid hi = (l, h)"
        by (simp add: bsearch.simps[of points timeSec lo hi])
      with "1.IH"(1)[OF True refl c m(2)] m show ?thesis by simp
    next
      case c: False
      with True "1.prems" have "bsearch points timeSec lo ?mid = (l, h)"
        by (simp add: bsearch.simps[of points timeSec lo hi] Let_def)
      with "1.IH"(2)[OF True refl c m(1)] m show ?thesis by simp
    qed
  qed
qed

lemma bsearch_bracket:
  "lo < hi \<Longrightarrow> hi < length ps \<Longrightarrow> time (ps ! lo) \<le> t \<Longrightarrow> t < time (ps ! hi) \<Longrightarrow>
   bsearch ps t lo hi = (l, h) \<Longrightarrow> time (ps ! l) \<le> t \<and> t < time (ps ! h)"
proof (induction ps t lo hi rule: bsearch.induct)
  case (1 points timeSec lo hi)
  show ?case
  proof (cases "hi - lo > 1")
    case False
    with "1.prems" show ?thesis by (simp add: bsearch.simps[of points timeSec lo hi])
  next
    case True
    let ?mid = "(lo + hi) div 2"
    from True have m: "lo < ?mid" "?mid < hi" by linarith+
    with "1.prems" have ml: "?mid < length points" by simp
    show ?thesis
    proof (cases "time (points ! ?mid) \<le> timeSec")
      case c: True
      with ml True "1.prems" have "bsearch points timeSec ?mid hi = (l, h)"
        by (simp add: bsearch.simps[of points timeSec lo hi])
      with "1.IH"(1)[OF True refl _ m(2)] c ml "1.prems" show ?thesis by simp
    next
      case c: False
      with True "1.prems" have "bsearch points timeSec lo ?mid = (l, h)"
        by (simp add: bsearch.simps[of points timeSec lo hi] Let_def)
      with "1.IH"(2)[OF True refl _ m(1)] c ml "1.prems" show ?thesis by simp
    qed
  qed
qed

lemma interpolate_inner:
  assumes ne: "points \<noteq> []"
    and lo: "time (points ! 0) < t" and hi: "t < time (last points)"
  shows "\<exists>i. Suc i < length points \<and> time (points ! i) \<le> t \<and> t < time (points ! Suc i)
           \<and> interpolateAtTime points t =
               Some (value (points ! i) + (value (points ! Suc i) - value (points ! i))
                       * (t - time (points ! i)) / (time (points ! Suc i) - time (points ! i)))"
proof -
  let ?n = "length points"
  from ne have lastn: "last points = points ! (?n - 1)" by (simp add: last_conv_nth)
  have n2: "0 < ?n - 1"
  proof (rule ccontr)
    assume "\<not> 0 < ?n - 1"
    with ne have "?n - 1 = 0" by simp
    with lastn lo hi show False by simp
  qed
  obtain l h where lh: "bsearch points t 0 (?n - 1) = (l, h)" by (cases "bsearch points t 0 (?n - 1)")
  from bsearch_step[OF n2 lh] have h: "h = Suc l" "h \<le> ?n - 1" by simp_all
  with n2 have hl: "h < ?n" "l < ?n" by linarith+
  have br: "time (points ! l) \<le> t \<and> t < time (points ! h)"
    using bsearch_bracket[OF n2 _ _ _ lh] lo hi lastn n2 by simp
  then have dt: "time (points ! h) - time (points ! l) \<noteq> 0" by simp
  have "interpolateAtTime points t =
          Some (value (points ! l) + (value (points ! h) - value (points ! l))
                  * ((t - time (points ! l)) / (time (points ! h) - time (points ! l))))"
    using ne lo hi lh hl dt by (simp add: interpolateAtTime_def Let_def)
  with h hl br show ?thesis by (intro exI[of _ l]) simp
qed

lemma bracket_unique:
  assumes s: "sorted (map time points)"
    and i: "Suc i < length points" "time (points ! i) \<le> t" "t < time (points ! Suc i)"
    and j: "Suc j < length points" "time (points ! j) \<le> t" "t < time (points ! Suc j)"
  shows "i = j"
proof -
  have mono: "\<And>a b. a \<le> b \<Longrightarrow> b < length points \<Longrightarrow> time (points ! a) \<le> time (points ! b)"
    using s by (simp add: sorted_iff_nth_mono)
  have "\<not> i < j"
  proof
    assume "i < j"
    then have "time (points ! Suc i) \<le> time (points ! j)" using mono[of "Suc i" j] j(1) by simp
    with i j show False by simp
  qed
  moreover have "\<not> j < i"
  proof
    assume "j < i"
    then have "time (points ! Suc j) \<le> time (points ! i)" using mono[of "Suc j" i] i(1) by simp
    with i j show False by simp
  qed
  ultimately show ?thesis by simp
qed

lemma interpolate_total: "(interpolateAtTime points t = None) = (points = [])"
proof (cases "points = []")
  case True
  then show ?thesis by (simp add: interpolateAtTime_def)
next
  case False
  show ?thesis
  proof (cases "t \<le> time (points ! 0) \<or> t \<ge> time (last points)")
    case True
    with False show ?thesis by (auto simp: interpolateAtTime_def Let_def)
  next
    case c: False
    then have "time (points ! 0) < t" "t < time (last points)" by simp_all
    from interpolate_inner[OF False this] False show ?thesis by auto
  qed
qed

lemma sorted_time_nth:
  "sorted (map time points) \<Longrightarrow> a \<le> b \<Longrightarrow> b < length points \<Longrightarrow> time (points ! a) \<le> time (points ! b)"
  by (simp add: sorted_iff_nth_mono)

text \<open>
  C1 (as amended). For every non-empty series sorted ascending by time, \<open>valueAt(series, t)\<close>
  returns \<open>series.first.value\<close> when \<open>t \<le> series.first.time\<close>; otherwise
  \<open>series.last.value\<close> when \<open>t \<ge> series.last.time\<close>; otherwise there is exactly one
  adjacent bracketing pair \<open>p1.time \<le> t < p2.time\<close>, and the result is the linear
  interpolation \<open>p1.value + (p2.value - p1.value) * (t - p1.time) / (p2.time - p1.time)\<close> over it
  (the times of a bracketing pair differ, so the guard for equal times is never taken here).
  When \<open>t\<close> equals a sample's time the result is that sample's value, provided every
  sample with that time carries the same value; this covers strictly ascending times.
\<close>

theorem interpolateAtTime_spec:
  assumes ne: "points \<noteq> []" and s: "sorted (map time points)"
  shows "(t \<le> time (hd points) \<longrightarrow> interpolateAtTime points t = Some (value (hd points)))
       \<and> (time (hd points) < t \<and> time (last points) \<le> t \<longrightarrow>
            interpolateAtTime points t = Some (value (last points)))
       \<and> (time (hd points) < t \<and> t < time (last points) \<longrightarrow>
            (\<exists>i. Suc i < length points \<and> time (points ! i) \<le> t \<and> t < time (points ! Suc i)))
       \<and> (\<forall>i. time (hd points) < t \<and> Suc i < length points
                \<and> time (points ! i) \<le> t \<and> t < time (points ! Suc i) \<longrightarrow>
              interpolateAtTime points t =
                Some (value (points ! i) + (value (points ! Suc i) - value (points ! i))
                        * (t - time (points ! i)) / (time (points ! Suc i) - time (points ! i))))
       \<and> (\<forall>i < length points.
              time (points ! i) = t
              \<and> (\<forall>j < length points. time (points ! j) = t \<longrightarrow> value (points ! j) = value (points ! i)) \<longrightarrow>
              interpolateAtTime points t = Some (value (points ! i)))"
proof -
  let ?n = "length points"
  let ?f = "\<lambda>i. value (points ! i) + (value (points ! Suc i) - value (points ! i))
                        * (t - time (points ! i)) / (time (points ! Suc i) - time (points ! i))"
  from ne have hd0: "hd points = points ! 0" by (simp add: hd_conv_nth)
  from ne have lastn: "last points = points ! (?n - 1)" by (simp add: last_conv_nth)
  from ne have npos: "0 < ?n" by simp
  have left: "t \<le> time (hd points) \<Longrightarrow> interpolateAtTime points t = Some (value (hd points))"
    using ne hd0 by (simp add: interpolateAtTime_def Let_def)
  have right: "time (hd points) < t \<Longrightarrow> time (last points) \<le> t \<Longrightarrow>
       interpolateAtTime points t = Some (value (last points))"
    using ne hd0 by (simp add: interpolateAtTime_def Let_def)
  have ex: "\<exists>i. Suc i < ?n \<and> time (points ! i) \<le> t \<and> t < time (points ! Suc i)
              \<and> interpolateAtTime points t = Some (?f i)"
    if "time (hd points) < t" "t < time (last points)"
    using interpolate_inner[OF ne] that hd0 by simp
  have all: "interpolateAtTime points t = Some (?f i)"
    if h: "time (hd points) < t" and i: "Suc i < ?n" "time (points ! i) \<le> t" "t < time (points ! Suc i)"
    for i
  proof -
    have "time (points ! Suc i) \<le> time (points ! (?n - 1))"
      using sorted_time_nth[OF s, of "Suc i" "?n - 1"] i(1) by simp
    with i(3) lastn have "t < time (last points)" by simp
    from ex[OF h this] obtain k where k: "Suc k < ?n" "time (points ! k) \<le> t"
      "t < time (points ! Suc k)" "interpolateAtTime points t = Some (?f k)" by blast
    from bracket_unique[OF s k(1-3) i] k(4) show ?thesis by simp
  qed
  have exact: "interpolateAtTime points t = Some (value (points ! i))"
    if i: "i < ?n" "time (points ! i) = t"
      and agree: "\<forall>j < ?n. time (points ! j) = t \<longrightarrow> value (points ! j) = value (points ! i)"
    for i
  proof -
    have le_last: "time (points ! i) \<le> time (points ! (?n - 1))"
      using sorted_time_nth[OF s, of i "?n - 1"] i(1) by simp
    have ge_first: "time (points ! 0) \<le> time (points ! i)"
      using sorted_time_nth[OF s, of 0 i] i(1) by simp
    consider (l) "t \<le> time (hd points)" | (r) "time (hd points) < t" "time (last points) \<le> t"
      | (m) "time (hd points) < t" "t < time (last points)" by linarith
    then show ?thesis
    proof cases
      case l
      with ge_first i(2) hd0 have "time (points ! 0) = t" by simp
      with agree npos have "value (points ! 0) = value (points ! i)" by blast
      with left[OF l] hd0 show ?thesis by simp
    next
      case r
      with le_last i(2) lastn have "time (points ! (?n - 1)) = t" by simp
      with agree npos have "value (points ! (?n - 1)) = value (points ! i)" by simp
      with right[OF r] lastn show ?thesis by simp
    next
      case m
      from ex[OF m] obtain k where k: "Suc k < ?n" "time (points ! k) \<le> t"
        "t < time (points ! Suc k)" "interpolateAtTime points t = Some (?f k)" by blast
      have "\<not> Suc k \<le> i"
      proof
        assume "Suc k \<le> i"
        from sorted_time_nth[OF s this i(1)] k(3) i(2) show False by simp
      qed
      then have "i \<le> k" by simp
      from sorted_time_nth[OF s this] k(1) have "time (points ! i) \<le> time (points ! k)" by simp
      with k(2) i(2) have tk: "time (points ! k) = t" by simp
      with agree k(1) have "value (points ! k) = value (points ! i)" by simp
      with k(4) tk show ?thesis by simp
    qed
  qed
  show ?thesis
  proof (intro conjI impI allI)
    show "interpolateAtTime points t = Some (value (hd points))" if "t \<le> time (hd points)"
      using left[OF that] .
    show "interpolateAtTime points t = Some (value (last points))"
      if "time (hd points) < t \<and> time (last points) \<le> t"
      using right that by simp
    show "\<exists>i. Suc i < ?n \<and> time (points ! i) \<le> t \<and> t < time (points ! Suc i)"
      if "time (hd points) < t \<and> t < time (last points)"
      using ex that by blast
    show "interpolateAtTime points t = Some (?f i)"
      if "time (hd points) < t \<and> Suc i < ?n \<and> time (points ! i) \<le> t \<and> t < time (points ! Suc i)"
      for i
      using all[of i] that by simp
    show "interpolateAtTime points t = Some (value (points ! i))"
      if "i < ?n" "time (points ! i) = t
              \<and> (\<forall>j < ?n. time (points ! j) = t \<longrightarrow> value (points ! j) = value (points ! i))"
      for i
    proof (rule exact)
      show "i < ?n" by (rule that(1))
      show "time (points ! i) = t" using that(2) by (rule conjunct1)
      show "\<forall>j < ?n. time (points ! j) = t \<longrightarrow> value (points ! j) = value (points ! i)"
        using that(2) by (rule conjunct2)
    qed
  qed
qed

theorem interpolateAtTime_spec_witness:
  "[\<lparr>time = 0, value = 0\<rparr>, \<lparr>time = 10, value = 10\<rparr>] \<noteq> []
   \<and> sorted (map time [\<lparr>time = 0, value = 0\<rparr>, \<lparr>time = 10, value = 10\<rparr>])
   \<and> interpolateAtTime [\<lparr>time = 0, value = 0\<rparr>, \<lparr>time = 10, value = 10\<rparr>] 5 = Some 5
   \<and> interpolateAtTime [\<lparr>time = 0, value = 0\<rparr>, \<lparr>time = 10, value = 10\<rparr>] 10 = Some 10"
proof -
  let ?ps = "[\<lparr>time = 0, value = 0\<rparr>, \<lparr>time = 10, value = 10::real\<rparr>]"
  have ne: "?ps \<noteq> []" and s: "sorted (map time ?ps)" by simp_all
  from interpolateAtTime_spec[OF ne s, of 5]
  have "\<forall>i. time (hd ?ps) < 5 \<and> Suc i < length ?ps
                \<and> time (?ps ! i) \<le> 5 \<and> 5 < time (?ps ! Suc i) \<longrightarrow>
              interpolateAtTime ?ps 5 =
                Some (value (?ps ! i) + (value (?ps ! Suc i) - value (?ps ! i))
                        * (5 - time (?ps ! i)) / (time (?ps ! Suc i) - time (?ps ! i)))"
    by blast
  from this[rule_format, of 0] have a: "interpolateAtTime ?ps 5 = Some 5" by simp
  from interpolateAtTime_spec[OF ne s, of 10]
  have "time (hd ?ps) < 10 \<and> time (last ?ps) \<le> 10 \<longrightarrow>
          interpolateAtTime ?ps 10 = Some (value (last ?ps))"
    by blast
  then have b: "interpolateAtTime ?ps 10 = Some 10" by simp
  from ne s a b show ?thesis by simp
qed

text \<open>
  The claim as first stated asks for the exact value of every sample whose time is \<open>t\<close>.
  With two samples at time \<open>1\<close>, of values \<open>5\<close> and \<open>7\<close>, the search settles on the
  later one: the series is sorted, the sample \<open>(1, 5)\<close> is at the query time, and the
  result is \<open>7\<close>.
\<close>

theorem interpolateAtTime_tie_counterexample:
  "[\<lparr>time = 0, value = 0\<rparr>, \<lparr>time = 1, value = 5\<rparr>, \<lparr>time = 1, value = 7\<rparr>, \<lparr>time = 2, value = 0\<rparr>] \<noteq> []
   \<and> sorted (map time [\<lparr>time = 0, value = 0\<rparr>, \<lparr>time = 1, value = 5\<rparr>, \<lparr>time = 1, value = 7\<rparr>,
                        \<lparr>time = 2, value = 0\<rparr>])
   \<and> \<lparr>time = 1, value = 5\<rparr> \<in> set [\<lparr>time = 0, value = 0\<rparr>, \<lparr>time = 1, value = 5\<rparr>,
                                      \<lparr>time = 1, value = 7\<rparr>, \<lparr>time = 2, value = 0\<rparr>]
   \<and> time \<lparr>time = 1, value = 5\<rparr> = 1
   \<and> interpolateAtTime [\<lparr>time = 0, value = 0\<rparr>, \<lparr>time = 1, value = 5\<rparr>, \<lparr>time = 1, value = 7\<rparr>,
                         \<lparr>time = 2, value = 0\<rparr>] 1 = Some 7
   \<and> interpolateAtTime [\<lparr>time = 0, value = 0\<rparr>, \<lparr>time = 1, value = 5\<rparr>, \<lparr>time = 1, value = 7\<rparr>,
                         \<lparr>time = 2, value = 0\<rparr>] 1 \<noteq> Some (value \<lparr>time = 1, value = 5\<rparr>)"
proof -
  let ?ps = "[\<lparr>time = 0, value = 0\<rparr>, \<lparr>time = 1, value = 5\<rparr>, \<lparr>time = 1, value = 7\<rparr>,
              \<lparr>time = 2, value = 0::real\<rparr>]"
  have b: "bsearch ?ps 1 0 3 = (2, 3)"
    by (simp add: bsearch.simps[of _ _ 0 3] bsearch.simps[of _ _ "Suc 0" 3] bsearch.simps[of _ _ 2 3] Let_def)
  have e: "Suc (Suc (Suc 0)) = 3" by simp
  show ?thesis by (simp add: interpolateAtTime_def Let_def e b)
qed

text \<open>
  C7. \<open>valueAt(series, queryTime)\<close> fails (here: returns \<^verbatim>\<open>null\<close>, the value
  \<^term>\<open>None\<close>) if and only if the series is empty: on the empty series it fails for
  every query time, and on every non-empty series it returns a value.
\<close>

theorem interpolateAtTime_null_iff_empty:
  "(interpolateAtTime points queryTime = None) = (points = [])"
  by (rule interpolate_total)

theorem interpolateAtTime_null_iff_empty_witness:
  "interpolateAtTime [] 3 = None
   \<and> interpolateAtTime [\<lparr>time = 1, value = 4\<rparr>] 3 \<noteq> None"
  using interpolateAtTime_null_iff_empty[of "[]" 3]
        interpolateAtTime_null_iff_empty[of "[\<lparr>time = 1, value = 4\<rparr>]" 3]
  by simp

subsection \<open>WindowedSeriesView\<close>

lemma bisectLeft_partition:
  assumes "sorted (map time a)" "lo \<le> hi" "hi \<le> length a"
    and "\<forall>i < lo. time (a ! i) < x"
    and "\<forall>i. hi \<le> i \<and> i < length a \<longrightarrow> x \<le> time (a ! i)"
  shows "lo \<le> bisectLeft a x lo hi \<and> bisectLeft a x lo hi \<le> hi
       \<and> (\<forall>i < bisectLeft a x lo hi. time (a ! i) < x)
       \<and> (\<forall>i. bisectLeft a x lo hi \<le> i \<and> i < length a \<longrightarrow> x \<le> time (a ! i))"
  using assms
proof (induction a x lo hi rule: bisectLeft.induct)
  case (1 a x lo hi)
  show ?case
  proof (cases "lo < hi")
    case False
    with "1.prems" have "lo = hi" by simp
    with "1.prems" show ?thesis by (simp add: bisectLeft.simps[of a x hi hi])
  next
    case True
    let ?mid = "(lo + hi) div 2"
    from True have m: "lo \<le> ?mid" "?mid < hi" by linarith+
    with "1.prems" have ml: "?mid < length a" by simp
    have mono: "\<And>i j. i \<le> j \<Longrightarrow> j < length a \<Longrightarrow> time (a ! i) \<le> time (a ! j)"
      using "1.prems"(1) by (simp add: sorted_iff_nth_mono)
    show ?thesis
    proof (cases "time (a ! ?mid) < x")
      case c: True
      have eq: "bisectLeft a x lo hi = bisectLeft a x (?mid + 1) hi"
        using True c by (simp add: bisectLeft.simps[of a x lo hi])
      have below: "\<forall>i < ?mid + 1. time (a ! i) < x"
      proof (intro allI impI)
        fix i assume "i < ?mid + 1"
        then have "i \<le> ?mid" by simp
        from mono[OF this ml] c show "time (a ! i) < x" by simp
      qed
      from "1.IH"(1)[OF True refl c "1.prems"(1) _ "1.prems"(3) below "1.prems"(5)] m eq
      show ?thesis by simp
    next
      case c: False
      have eq: "bisectLeft a x lo hi = bisectLeft a x lo ?mid"
        using True c by (simp add: bisectLeft.simps[of a x lo hi])
      have above: "\<forall>i. ?mid \<le> i \<and> i < length a \<longrightarrow> x \<le> time (a ! i)"
      proof (intro allI impI)
        fix i assume "?mid \<le> i \<and> i < length a"
        then have "time (a ! ?mid) \<le> time (a ! i)" using mono by simp
        with c show "x \<le> time (a ! i)" by simp
      qed
      from "1.IH"(2)[OF True refl c "1.prems"(1) m(1) _ "1.prems"(4) above] ml m eq
      show ?thesis by simp
    qed
  qed
qed

lemma bisectTime_partition:
  assumes "sorted (map time a)"
  shows "bisectTime a x 0 \<le> length a
       \<and> (\<forall>i < bisectTime a x 0. time (a ! i) < x)
       \<and> (\<forall>i. bisectTime a x 0 \<le> i \<and> i < length a \<longrightarrow> x \<le> time (a ! i))"
  using bisectLeft_partition[OF assms, of 0 "length a" x] by (simp add: bisectTime_def)

lemma sorted_time_scale:
  "sorted (map time xs) \<Longrightarrow> sorted (map (\<lambda>p. time p * 1000) xs)"
  by (induction xs) auto

lemma contextData_unfold:
  "contextData data frameNow dv windowMs dataKey =
     map (\<lambda>p. [''date'' \<mapsto> JDate (time p * 1000), dataKey \<mapsto> JNumber (value p)])
         (drop (bisectTime data ((frameNow - windowMs) / 1000) 0 - 1) data)
       @ [[''date'' \<mapsto> JDate frameNow, dataKey \<mapsto> JNumber dv]]"
  by (simp add: contextData_def Let_def)

lemma xAccessor_record:
  "dataKey \<noteq> ''date'' \<Longrightarrow> xAccessor [''date'' \<mapsto> JDate ms, dataKey \<mapsto> JNumber v] = Some ms"
  by (auto simp: xAccessor_def)

lemma nth_in_drop:
  assumes "k \<le> i" "i < length xs"
  shows "xs ! i \<in> set (drop k xs)"
proof -
  from assms have "drop k xs ! (i - k) = xs ! i" by simp
  moreover from assms have "i - k < length (drop k xs)" by simp
  ultimately show ?thesis by (metis nth_mem)
qed

text \<open>
  C8 (as amended). For every input series sorted ascending by time, every window start and
  every live value, and every live time that is not earlier than any sample of the series:
  the rendered slice \<open>contextData\<close> is sorted ascending by time, its last element is the
  synthetic live-tip point, the point immediately preceding the window start (when one
  exists) is retained, and so is every point at or after the window start. The crosshair
  series of \<open>handleMouseMove\<close> is sorted as well and ends with the live tip. The data key
  is any key other than \<open>date\<close>.
\<close>

theorem contextData_window:
  fixes data :: "LiveLinePoint list" and frameNow dv windowMs :: real and dataKey :: string
  assumes s: "sorted (map time data)"
    and live: "\<forall>p \<in> set data. time p * 1000 \<le> frameNow"
    and key: "dataKey \<noteq> ''date''"
  defines "out \<equiv> contextData data frameNow dv windowMs dataKey"
    and "windowStart \<equiv> frameNow - windowMs"
  shows "(\<forall>r \<in> set out. xAccessor r \<noteq> None)
       \<and> sorted (map (the \<circ> xAccessor) out)
       \<and> last out = [''date'' \<mapsto> JDate frameNow, dataKey \<mapsto> JNumber dv]
       \<and> (\<forall>i < length data.
             time (data ! i) < windowStart / 1000
             \<and> (Suc i < length data \<longrightarrow> windowStart / 1000 \<le> time (data ! Suc i)) \<longrightarrow>
             [''date'' \<mapsto> JDate (time (data ! i) * 1000), dataKey \<mapsto> JNumber (value (data ! i))]
               \<in> set out)
       \<and> (\<forall>p \<in> set data.
             windowStart / 1000 \<le> time p \<longrightarrow>
             [''date'' \<mapsto> JDate (time p * 1000), dataKey \<mapsto> JNumber (value p)] \<in> set out)
       \<and> sorted (map time (hoverSeries data frameNow dv windowMs))
       \<and> last (hoverSeries data frameNow dv windowMs) = \<lparr>time = frameNow / 1000, value = dv\<rparr>"
proof -
  let ?x = "windowStart / 1000"
  let ?r = "bisectTime data ?x 0"
  let ?k = "?r - 1"
  let ?R = "\<lambda>p. [''date'' \<mapsto> JDate (time p * 1000), dataKey \<mapsto> JNumber (value p)]"
  let ?tip = "[''date'' \<mapsto> JDate frameNow, dataKey \<mapsto> JNumber dv]"
  have out: "out = map ?R (drop ?k data) @ [?tip]"
    unfolding out_def windowStart_def by (rule contextData_unfold)
  note part = bisectTime_partition[OF s, of ?x]
  have r_le: "?r \<le> length data"
    using part by (rule conjunct1)
  have below: "time (data ! i) < ?x" if "i < ?r" for i
    using part[THEN conjunct2, THEN conjunct1] that by blast
  have above: "?x \<le> time (data ! i)" if "?r \<le> i" "i < length data" for i
    using part[THEN conjunct2, THEN conjunct2] that by blast
  have xs: "map (the \<circ> xAccessor) out = map (\<lambda>p. time p * 1000) (drop ?k data) @ [frameNow]"
    using key by (simp add: out xAccessor_record comp_def)
  have c1: "\<forall>r \<in> set out. xAccessor r \<noteq> None"
    using key by (auto simp: out xAccessor_record)
  have "sorted (map time (drop ?k data))"
    using s by (simp add: drop_map[symmetric] sorted_wrt_drop)
  then have "sorted (map (\<lambda>p. time p * 1000) (drop ?k data))" by (rule sorted_time_scale)
  moreover have "\<forall>p \<in> set (drop ?k data). time p * 1000 \<le> frameNow"
    using live in_set_dropD by fast
  ultimately have c2: "sorted (map (the \<circ> xAccessor) out)"
    by (simp add: xs sorted_append)
  have c3: "last out = ?tip" by (simp add: out)
  have c4: "?R (data ! i) \<in> set out"
    if i: "i < length data" "time (data ! i) < ?x"
      "Suc i < length data \<longrightarrow> ?x \<le> time (data ! Suc i)" for i
  proof -
    have "i < ?r"
    proof (rule ccontr)
      assume "\<not> i < ?r"
      then have "?x \<le> time (data ! i)" using above i(1) by simp
      with i(2) show False by simp
    qed
    moreover have "\<not> Suc i < ?r"
    proof
      assume a: "Suc i < ?r"
      with r_le have "Suc i < length data" by simp
      with i(3) below[OF a] show False by simp
    qed
    ultimately have "?k = i" by simp
    then have "data ! i \<in> set (drop ?k data)"
      using i(1) nth_in_drop[of ?k i data] by simp
    then show ?thesis by (simp add: out)
  qed
  have c5: "?R p \<in> set out" if p: "p \<in> set data" "?x \<le> time p" for p
  proof -
    from p(1) obtain i where i: "i < length data" "data ! i = p" by (auto simp: in_set_conv_nth)
    have "\<not> i < ?r"
    proof
      assume "i < ?r"
      from below[OF this] i(2) p(2) show False by simp
    qed
    then have "?k \<le> i" by simp
    then have "data ! i \<in> set (drop ?k data)"
      using i(1) by (rule nth_in_drop)
    with i(2) show ?thesis by (auto simp: out)
  qed
  have "sorted (map time (filter (\<lambda>p. time p \<ge> (frameNow - windowMs) / 1000) data))"
    using s by (simp add: sorted_map sorted_wrt_filter)
  moreover have "\<forall>p \<in> set data. time p \<le> frameNow / 1000"
    using live by (simp add: pos_le_divide_eq)
  ultimately have c6: "sorted (map time (hoverSeries data frameNow dv windowMs))"
    by (auto simp: hoverSeries_def sorted_append)
  have c7: "last (hoverSeries data frameNow dv windowMs) = \<lparr>time = frameNow / 1000, value = dv\<rparr>"
    by (simp add: hoverSeries_def)
  show ?thesis
  proof (intro conjI ballI allI impI)
    show "\<And>r. r \<in> set out \<Longrightarrow> xAccessor r \<noteq> None" using c1 by blast
    show "sorted (map (the \<circ> xAccessor) out)" by (rule c2)
    show "last out = ?tip" by (rule c3)
    show "\<And>i. i < length data \<Longrightarrow>
          time (data ! i) < ?x \<and> (Suc i < length data \<longrightarrow> ?x \<le> time (data ! Suc i)) \<Longrightarrow>
          ?R (data ! i) \<in> set out" using c4 by blast
    show "\<And>p. p \<in> set data \<Longrightarrow> ?x \<le> time p \<Longrightarrow> ?R p \<in> set out" using c5 by blast
    show "sorted (map time (hoverSeries data frameNow dv windowMs))" by (rule c6)
    show "last (hoverSeries data frameNow dv windowMs) = \<lparr>time = frameNow / 1000, value = dv\<rparr>"
      by (rule c7)
  qed
qed

theorem contextData_window_witness:
  "sorted (map time [\<lparr>time = 1, value = 10\<rparr>, \<lparr>time = 2, value = 12\<rparr>, \<lparr>time = 3, value = 11\<rparr>])
   \<and> ''value'' \<noteq> ''date''
   \<and> sorted (map (the \<circ> xAccessor)
         (contextData [\<lparr>time = 1, value = 10\<rparr>, \<lparr>time = 2, value = 12\<rparr>, \<lparr>time = 3, value = 11\<rparr>]
            4000 13 1500 ''value''))
   \<and> last (contextData [\<lparr>time = 1, value = 10\<rparr>, \<lparr>time = 2, value = 12\<rparr>, \<lparr>time = 3, value = 11\<rparr>]
              4000 13 1500 ''value'')
       = [''date'' \<mapsto> JDate 4000, ''value'' \<mapsto> JNumber 13]
   \<and> [''date'' \<mapsto> JDate 2000, ''value'' \<mapsto> JNumber 12]
       \<in> set (contextData [\<lparr>time = 1, value = 10\<rparr>, \<lparr>time = 2, value = 12\<rparr>, \<lparr>time = 3, value = 11\<rparr>]
                 4000 13 1500 ''value'')"
proof -
  let ?d = "[\<lparr>time = 1, value = 10\<rparr>, \<lparr>time = 2, value = 12\<rparr>, \<lparr>time = 3, value = 11::real\<rparr>]"
  let ?out = "contextData ?d 4000 13 1500 ''value''"
  have s: "sorted (map time ?d)" by simp
  have live: "\<forall>p \<in> set ?d. time p * 1000 \<le> 4000" by simp
  have key: "''value'' \<noteq> ''date''" by simp
  note th = contextData_window[OF s live key, of 13 1500]
  have a: "sorted (map (the \<circ> xAccessor) ?out)"
    using th by (rule conjunct2[THEN conjunct1])
  have b: "last ?out = [''date'' \<mapsto> JDate 4000, ''value'' \<mapsto> JNumber 13]"
    using th by (rule conjunct2[THEN conjunct2, THEN conjunct1])
  have "\<forall>i < length ?d.
             time (?d ! i) < (4000 - 1500) / 1000
             \<and> (Suc i < length ?d \<longrightarrow> (4000 - 1500) / 1000 \<le> time (?d ! Suc i)) \<longrightarrow>
             [''date'' \<mapsto> JDate (time (?d ! i) * 1000), ''value'' \<mapsto> JNumber (value (?d ! i))]
               \<in> set ?out"
    using th by (rule conjunct2[THEN conjunct2, THEN conjunct2, THEN conjunct1])
  from this[rule_format, of 1]
  have c: "[''date'' \<mapsto> JDate 2000, ''value'' \<mapsto> JNumber 12] \<in> set ?out" by simp
  from s key a b c show ?thesis by blast
qed

text \<open>
  The claim as first stated takes every live time. With one sample at second \<open>5\<close> and the
  frame clock at \<open>3000\<close> milliseconds, the live tip is appended after a later sample and
  neither series is sorted.
\<close>

theorem contextData_unsorted_counterexample:
  "sorted (map time [\<lparr>time = 5, value = 1\<rparr>])
   \<and> map (the \<circ> xAccessor) (contextData [\<lparr>time = 5, value = 1\<rparr>] 3000 2 30000 ''value'')
       = [5000, 3000]
   \<and> \<not> sorted (map (the \<circ> xAccessor) (contextData [\<lparr>time = 5, value = 1\<rparr>] 3000 2 30000 ''value''))
   \<and> hoverSeries [\<lparr>time = 5, value = 1\<rparr>] 3000 2 30000
       = [\<lparr>time = 5, value = 1\<rparr>, \<lparr>time = 3, value = 2\<rparr>]
   \<and> \<not> sorted (map time (hoverSeries [\<lparr>time = 5, value = 1\<rparr>] 3000 2 30000))"
proof -
  have b: "bisectTime [\<lparr>time = 5, value = 1\<rparr>] (- 27) 0 = 0"
    by (simp add: bisectTime_def bisectLeft.simps[of _ _ 0 "Suc 0"] bisectLeft.simps[of _ _ 0 0])
  have c: "map (the \<circ> xAccessor) (contextData [\<lparr>time = 5, value = 1\<rparr>] 3000 2 30000 ''value'')
             = [5000, 3000]"
    by (simp add: contextData_unfold b xAccessor_def)
  have h: "hoverSeries [\<lparr>time = 5, value = 1\<rparr>] 3000 2 30000
             = [\<lparr>time = 5, value = 1\<rparr>, \<lparr>time = 3, value = 2\<rparr>]"
    by (simp add: hoverSeries_def)
  show ?thesis by (simp add: c h)
qed

text \<open>
  The crosshair series of \<open>handleMouseMove\<close> keeps only the samples inside the window: on
  the series above the sample at time \<open>2\<close>, just before the window start \<open>2.5\<close>, is
  not part of it.
\<close>

lemma hoverSeries_drops_preceding:
  "hoverSeries [\<lparr>time = 1, value = 10\<rparr>, \<lparr>time = 2, value = 12\<rparr>, \<lparr>time = 3, value = 11\<rparr>] 4000 13 1500
     = [\<lparr>time = 3, value = 11\<rparr>, \<lparr>time = 4, value = 13\<rparr>]"
  by (simp add: hoverSeries_def)

subsection \<open>IntervalPicker\<close>

text \<open>
  The search loop returns for every rounding that rounds like doubles: the span is
  non-negative and strictly decreases through finitely many values.
\<close>

lemma divAt_ge_2:
  assumes "divs \<in> set divisorSets"
  shows "2 \<le> divAt divs i"
proof -
  have "i mod 3 = 0 \<or> i mod 3 = 1 \<or> i mod 3 = 2" by linarith
  with assms show ?thesis by (auto simp: divisorSets_def divAt_def)
qed

lemma spanLoop_result:
  assumes rl: "roundsLikeDouble r" and g: "0 < g" and d2: "\<And>i. 2 \<le> divAt divs i"
  shows "0 \<le> s \<Longrightarrow>
         \<exists>n. spanLoop r divs px g s i = Some (divFrom r divs i n s)
            \<and> r (r (divFrom r divs i n s / divAt divs (i + n)) * px) < g
            \<and> (\<forall>m < n. g \<le> r (r (divFrom r divs i m s / divAt divs (i + m)) * px))"
proof (induction "card {y \<in> r ` {0..s}. y < s}" arbitrary: s i rule: less_induct)
  case less
  from rl have r0: "r 0 = 0"
    and rn: "\<And>x. 0 \<le> x \<Longrightarrow> 0 \<le> r x"
    and rd: "\<And>x d. 0 < x \<Longrightarrow> 2 \<le> d \<Longrightarrow> r (x / d) < x"
    and rf: "\<And>B. finite (r ` {0..B})"
    by (auto simp: roundsLikeDouble_def)
  let ?d = "divAt divs i"
  let ?s = "r (s / ?d)"
  have dpos: "0 < ?d" using d2[of i] by simp
  show ?case
  proof (cases "g \<le> r (?s * px)")
    case False
    then have "spanLoop r divs px g s i = Some s" by (subst spanLoop.simps) simp
    with False show ?thesis by (intro exI[of _ 0]) simp
  next
    case True
    have spos: "0 < s"
    proof (rule ccontr)
      assume "\<not> 0 < s"
      with less.prems have "s = 0" by simp
      with True r0 g show False by simp
    qed
    have q: "0 \<le> s / ?d" using spos dpos by simp
    have "s \<le> s * ?d" using spos d2[of i] by simp
    then have q2: "s / ?d \<le> s" using dpos by (simp add: pos_divide_le_eq)
    have s0: "0 \<le> ?s" using q by (rule rn)
    have slt: "?s < s" using spos d2[of i] by (rule rd)
    have mem: "?s \<in> r ` {0..s}" using q q2 by simp
    have sub: "{y \<in> r ` {0..?s}. y < ?s} \<subset> {y \<in> r ` {0..s}. y < s}"
    proof
      show "{y \<in> r ` {0..?s}. y < ?s} \<subseteq> {y \<in> r ` {0..s}. y < s}"
        using slt by auto
      have "?s \<in> {y \<in> r ` {0..s}. y < s}" using mem slt by simp
      moreover have "?s \<notin> {y \<in> r ` {0..?s}. y < ?s}" by simp
      ultimately show "{y \<in> r ` {0..?s}. y < ?s} \<noteq> {y \<in> r ` {0..s}. y < s}" by blast
    qed
    have "finite {y \<in> r ` {0..s}. y < s}" using rf[of s] by simp
    then have "card {y \<in> r ` {0..?s}. y < ?s} < card {y \<in> r ` {0..s}. y < s}"
      using sub by (intro psubset_card_mono)
    from less.hyps[OF this s0, of "Suc i"]
    obtain n where n: "spanLoop r divs px g ?s (Suc i) = Some (divFrom r divs (Suc i) n ?s)"
      "r (r (divFrom r divs (Suc i) n ?s / divAt divs (Suc i + n)) * px) < g"
      "\<forall>m < n. g \<le> r (r (divFrom r divs (Suc i) m ?s / divAt divs (Suc i + m)) * px)"
      by blast
    have step: "spanLoop r divs px g s i = spanLoop r divs px g ?s (Suc i)"
      using True by (subst spanLoop.simps) simp
    have a: "spanLoop r divs px g s i = Some (divFrom r divs i (Suc n) s)"
      using step n(1) by simp
    have b: "r (r (divFrom r divs i (Suc n) s / divAt divs (i + Suc n)) * px) < g"
      using n(2) by simp
    have c: "g \<le> r (r (divFrom r divs i m s / divAt divs (i + m)) * px)" if "m < Suc n" for m
    proof (cases m)
      case 0
      with True show ?thesis by simp
    next
      case (Suc m')
      with that have "m' < n" by simp
      with n(3) have "g \<le> r (r (divFrom r divs (Suc i) m' ?s / divAt divs (Suc i + m')) * px)"
        by blast
      with Suc show ?thesis by simp
    qed
    from a b c show ?thesis by (intro exI[of _ "Suc n"]) blast
  qed
qed

lemma spanLoop_search:
  assumes rl: "roundsLikeDouble r" and g: "0 < g" and mem: "divs \<in> set divisorSets" and s: "0 \<le> s"
  shows "\<exists>n. spanLoop r divs px g s 0 = Some (divFrom r divs 0 n s)
            \<and> searchStops r divs px g s n
            \<and> (g \<le> r (s * px) \<longrightarrow> g \<le> r (divFrom r divs 0 n s * px))"
proof -
  from spanLoop_result[OF rl g divAt_ge_2[OF mem] s, of px 0]
  obtain n where n: "spanLoop r divs px g s 0 = Some (divFrom r divs 0 n s)"
    "r (r (divFrom r divs 0 n s / divAt divs n) * px) < g"
    "\<forall>m < n. g \<le> r (r (divFrom r divs 0 m s / divAt divs m) * px)"
    by auto
  have shift: "divFrom r divs j (Suc k) t = r (divFrom r divs j k t / divAt divs (j + k))" for j k t
    by (induction k arbitrary: j t) simp_all
  have sp: "g \<le> r (divFrom r divs 0 n s * px)" if "g \<le> r (s * px)"
  proof (cases n)
    case 0
    with that show ?thesis by simp
  next
    case (Suc k)
    with n(3) have "g \<le> r (r (divFrom r divs 0 k s / divAt divs k) * px)" by simp
    then show ?thesis using Suc shift[of 0 k s] by simp
  qed
  from n sp show ?thesis unfolding searchStops_def by blast
qed

text \<open>Evaluations of the picker in double arithmetic.\<close>

lemma fl_at_3: "x = 3 \<Longrightarrow> fl x = 3"
  by (erule ssubst, subst fl_eval_neg[where n = 51]) (simp_all add: roundHalfEven_def)

lemma fl_at_4: "x = 4 \<Longrightarrow> fl x = 4"
  by (erule ssubst, subst fl_eval_neg[where n = 50]) (simp_all add: roundHalfEven_def)

lemma fl_at_12: "x = 12 \<Longrightarrow> fl x = 12"
  by (erule ssubst, subst fl_eval_neg[where n = 49]) (simp_all add: roundHalfEven_def)

lemma fl_at_15: "x = 15 \<Longrightarrow> fl x = 15"
  by (erule ssubst, subst fl_eval_neg[where n = 49]) (simp_all add: roundHalfEven_def)

lemma fl_at_18: "x = 18 \<Longrightarrow> fl x = 18"
  by (erule ssubst, subst fl_eval_neg[where n = 48]) (simp_all add: roundHalfEven_def)

lemma fl_at_20: "x = 20 \<Longrightarrow> fl x = 20"
  by (erule ssubst, subst fl_eval_neg[where n = 48]) (simp_all add: roundHalfEven_def)

lemma fl_at_25: "x = 25 \<Longrightarrow> fl x = 25"
  by (erule ssubst, subst fl_eval_neg[where n = 48]) (simp_all add: roundHalfEven_def)

lemma fl_at_30: "x = 30 \<Longrightarrow> fl x = 30"
  by (erule ssubst, subst fl_eval_neg[where n = 48]) (simp_all add: roundHalfEven_def)

lemma fl_at_40: "x = 40 \<Longrightarrow> fl x = 40"
  by (erule ssubst, subst fl_eval_neg[where n = 47]) (simp_all add: roundHalfEven_def)

lemma fl_at_50: "x = 50 \<Longrightarrow> fl x = 50"
  by (erule ssubst, subst fl_eval_neg[where n = 47]) (simp_all add: roundHalfEven_def)

lemma fl_at_60: "x = 60 \<Longrightarrow> fl x = 60"
  by (erule ssubst, subst fl_eval_neg[where n = 47]) (simp_all add: roundHalfEven_def)

lemma fl_at_75: "x = 75 \<Longrightarrow> fl x = 75"
  by (erule ssubst, subst fl_eval_neg[where n = 46]) (simp_all add: roundHalfEven_def)

lemma fl_at_100: "x = 100 \<Longrightarrow> fl x = 100"
  by (erule ssubst, subst fl_eval_neg[where n = 46]) (simp_all add: roundHalfEven_def)

lemma fl_at_108: "x = 108 \<Longrightarrow> fl x = 108"
  by (erule ssubst, subst fl_eval_neg[where n = 46]) (simp_all add: roundHalfEven_def)

lemma fl_at_120: "x = 120 \<Longrightarrow> fl x = 120"
  by (erule ssubst, subst fl_eval_neg[where n = 46]) (simp_all add: roundHalfEven_def)

lemma fl_at_150: "x = 150 \<Longrightarrow> fl x = 150"
  by (erule ssubst, subst fl_eval_neg[where n = 45]) (simp_all add: roundHalfEven_def)

lemma fl_at_3000: "x = 3000 \<Longrightarrow> fl x = 3000"
  by (erule ssubst, subst fl_eval_neg[where n = 41]) (simp_all add: roundHalfEven_def)

lemma fl_at_3780: "x = 3780 \<Longrightarrow> fl x = 3780"
  by (erule ssubst, subst fl_eval_neg[where n = 41]) (simp_all add: roundHalfEven_def)

lemma fl_at_36_7: "x = 36 / 7 \<Longrightarrow> fl x = 5790342378047781 / 1125899906842624"
  by (erule ssubst, subst fl_eval_neg[where n = 50]) (simp_all add: roundHalfEven_def)

lemma fl_at_21_P: "x = 121597189939003401 / 1125899906842624 \<Longrightarrow> fl x = 7599824371187713 / 70368744177664"
  by (erule ssubst, subst fl_eval_neg[where n = 46]) (simp_all add: roundHalfEven_def)

lemma fl_at_50_P: "x = 144758559451194525 / 562949953421312 \<Longrightarrow> fl x = 4523704982849829 / 17592186044416"
  by (erule ssubst, subst fl_eval_neg[where n = 44]) (simp_all add: roundHalfEven_def)

lemma fl_at_20_P: "x = 28951711890238905 / 281474976710656 \<Longrightarrow> fl x = 3618963986279863 / 35184372088832"
  by (erule ssubst, subst fl_eval_neg[where n = 46]) (simp_all add: roundHalfEven_def)

lemma fl_at_10_P: "x = 28951711890238905 / 562949953421312 \<Longrightarrow> fl x = 3618963986279863 / 70368744177664"
  by (erule ssubst, subst fl_eval_neg[where n = 47]) (simp_all add: roundHalfEven_def)

lemma fl_at_5_P: "x = 28951711890238905 / 1125899906842624 \<Longrightarrow> fl x = 3618963986279863 / 140737488355328"
  by (erule ssubst, subst fl_eval_neg[where n = 48]) (simp_all add: roundHalfEven_def)

lemma fl_at_25_P: "x = 144758559451194525 / 1125899906842624 \<Longrightarrow> fl x = 4523704982849829 / 35184372088832"
  by (erule ssubst, subst fl_eval_neg[where n = 45]) (simp_all add: roundHalfEven_def)

lemma fl_at_40_P: "x = 28951711890238905 / 140737488355328 \<Longrightarrow> fl x = 3618963986279863 / 17592186044416"
  by (erule ssubst, subst fl_eval_neg[where n = 45]) (simp_all add: roundHalfEven_def)

lemma fl_at_4_P: "x = 5790342378047781 / 281474976710656 \<Longrightarrow> fl x = 5790342378047781 / 281474976710656"
  by (erule ssubst, subst fl_eval_neg[where n = 48]) (simp_all add: roundHalfEven_def)

lemma fl_at_3_10: "x = 3 / 10 \<Longrightarrow> fl x = 5404319552844595 / 18014398509481984"
  by (erule ssubst, subst fl_eval_neg[where n = 54]) (simp_all add: roundHalfEven_def)

lemma fl_at_50_Q: "x = 135107988821114875 / 9007199254740992 \<Longrightarrow> fl x = 15"
  by (erule ssubst, subst fl_eval_neg[where n = 49]) (simp_all add: roundHalfEven_def)

lemma fl_at_40_Q: "x = 27021597764222975 / 2251799813685248 \<Longrightarrow> fl x = 12"
  by (erule ssubst, subst fl_eval_neg[where n = 49]) (simp_all add: roundHalfEven_def)

lemmas fl_pick_evals = fl_at_5 fl_at_10 fl_at_3 fl_at_4 fl_at_12 fl_at_15 fl_at_18 fl_at_20 fl_at_25 fl_at_30 fl_at_40 fl_at_50 fl_at_60 fl_at_75 fl_at_100 fl_at_108 fl_at_120 fl_at_150 fl_at_3000 fl_at_3780 fl_at_36_7 fl_at_21_P fl_at_50_P fl_at_20_P fl_at_10_P fl_at_5_P fl_at_25_P fl_at_40_P fl_at_4_P fl_at_3_10 fl_at_50_Q fl_at_40_Q

lemma lowerMin_chain:
  "lowerMin c3 (lowerMin c2 (lowerMin c1 None)) = Some (min c1 (min c2 c3))"
  by (simp add: lowerMin_def min_def)

lemma ceiling_log10_35: "\<lceil>log 10 (35::real)\<rceil> = 2"
  using ceiling_log_eq_powr_iff[of 35 10 1] by simp

lemma ceiling_log10_100: "\<lceil>log 10 (100::real)\<rceil> = 2"
proof -
  have "log 10 (10 ^ 2) = (2::real)" by (subst log_pow_cancel) simp_all
  then have "log 10 100 = (2::real)" by simp
  then show ?thesis by simp
qed

lemma startSpan_double_35: "startSpan doubleArith 35 = 100"
  by (simp add: startSpan_def doubleArith_def ceiling_log10_35 fl_at_100)

lemma startSpan_double_100: "startSpan doubleArith 100 = 100"
  by (simp add: startSpan_def doubleArith_def ceiling_log10_100 fl_at_100)

lemma spanLoop_double_35:
  "spanLoop fl [2, 5 / 2, 2] (5790342378047781 / 1125899906842624) 36 100 0 = Some 10"
  "spanLoop fl [2, 2, 5 / 2] (5790342378047781 / 1125899906842624) 36 100 0 = Some 10"
  "spanLoop fl [5 / 2, 2, 2] (5790342378047781 / 1125899906842624) 36 100 0 = Some 10"
  by ((subst spanLoop.simps, simp add: divAt_def fl_pick_evals)+)

lemma spanLoop_double_tall:
  "spanLoop fl [2, 5 / 2, 2] 3 36 100 0 = Some 20"
  "spanLoop fl [2, 2, 5 / 2] 3 36 100 0 = Some 25"
  "spanLoop fl [5 / 2, 2, 2] 3 36 100 0 = Some 20"
  by ((subst spanLoop.simps, simp add: divAt_def fl_pick_evals)+)

lemma spanLoop_double_short:
  "spanLoop fl [2, 5 / 2, 2] (5404319552844595 / 18014398509481984) 36 100 0 = Some 100"
  "spanLoop fl [2, 2, 5 / 2] (5404319552844595 / 18014398509481984) 36 100 0 = Some 100"
  "spanLoop fl [5 / 2, 2, 2] (5404319552844595 / 18014398509481984) 36 100 0 = Some 100"
  by ((subst spanLoop.simps, simp add: divAt_def fl_pick_evals)+)

lemma pick_double_35: "pickNiceInterval doubleArith 35 180 36 21 = Some 10"
  by (simp add: pickNiceInterval_def Let_def divisorSets_def startSpan_double_35 doubleArith_def
        fl_pick_evals spanLoop_double_35 lowerMin_def
        startSpan_double_35[unfolded doubleArith_def])

lemma pick_double_tall: "pickNiceInterval doubleArith 100 300 36 0 = Some 20"
  by (simp add: pickNiceInterval_def Let_def divisorSets_def doubleArith_def
        fl_pick_evals spanLoop_double_tall lowerMin_def
        startSpan_double_100[unfolded doubleArith_def])

lemma pick_double_short: "pickNiceInterval doubleArith 100 30 36 0 = Some 100"
  by (simp add: pickNiceInterval_def Let_def divisorSets_def doubleArith_def
        fl_pick_evals spanLoop_double_short lowerMin_def
        startSpan_double_100[unfolded doubleArith_def])

lemma fl_gap_1: "x = 2161727821137838080 / 3602879701896397 \<Longrightarrow> fl x = 600"
  by (erule ssubst, subst fl_eval_neg[where n = 43]) (simp_all add: roundHalfEven_def)

lemma fl_gap_2: "x = 1 \<Longrightarrow> fl x = 1"
  by (erule ssubst, subst fl_eval_neg[where n = 52]) (simp_all add: roundHalfEven_def)

lemma fl_gap_3: "x = 1 / 2 \<Longrightarrow> fl x = 1 / 2"
  by (erule ssubst, subst fl_eval_neg[where n = 53]) (simp_all add: roundHalfEven_def)

lemma fl_gap_4: "x = 300 \<Longrightarrow> fl x = 300"
  by (erule ssubst, subst fl_eval_neg[where n = 44]) (simp_all add: roundHalfEven_def)

lemma fl_gap_5: "x = 1 / 5 \<Longrightarrow> fl x = 3602879701896397 / 18014398509481984"
  by (erule ssubst, subst fl_eval_neg[where n = 55]) (simp_all add: roundHalfEven_def)

lemma fl_gap_6: "x = 270215977642229775 / 2251799813685248 \<Longrightarrow> fl x = 120"
  by (erule ssubst, subst fl_eval_neg[where n = 46]) (simp_all add: roundHalfEven_def)

lemma fl_gap_7: "x = 3602879701896397 / 36028797018963968 \<Longrightarrow> fl x = 3602879701896397 / 36028797018963968"
  by (erule ssubst, subst fl_eval_neg[where n = 56]) (simp_all add: roundHalfEven_def)

lemma fl_gap_8: "x = 270215977642229775 / 4503599627370496 \<Longrightarrow> fl x = 60"
  by (erule ssubst, subst fl_eval_neg[where n = 47]) (simp_all add: roundHalfEven_def)

lemma fl_gap_9: "x = 3602879701896397 / 72057594037927936 \<Longrightarrow> fl x = 3602879701896397 / 72057594037927936"
  by (erule ssubst, subst fl_eval_neg[where n = 57]) (simp_all add: roundHalfEven_def)

lemma fl_gap_10: "x = 270215977642229775 / 9007199254740992 \<Longrightarrow> fl x = 30"
  by (erule ssubst, subst fl_eval_neg[where n = 48]) (simp_all add: roundHalfEven_def)

lemma fl_gap_11: "x = 3602879701896397 / 180143985094819840 \<Longrightarrow> fl x = 5764607523034235 / 288230376151711744"
  by (erule ssubst, subst fl_eval_neg[where n = 58]) (simp_all add: roundHalfEven_def)

lemma fl_gap_12: "x = 432345564227567625 / 36028797018963968 \<Longrightarrow> fl x = 12"
  by (erule ssubst, subst fl_eval_neg[where n = 49]) (simp_all add: roundHalfEven_def)

lemma fl_gap_13: "x = 1 / 4 \<Longrightarrow> fl x = 1 / 4"
  by (erule ssubst, subst fl_eval_neg[where n = 54]) (simp_all add: roundHalfEven_def)

lemma fl_gap_14: "x = 150 \<Longrightarrow> fl x = 150"
  by (erule ssubst, subst fl_eval_neg[where n = 45]) (simp_all add: roundHalfEven_def)

lemma fl_gap_15: "x = 1 / 10 \<Longrightarrow> fl x = 3602879701896397 / 36028797018963968"
  by (erule ssubst, subst fl_eval_neg[where n = 56]) (simp_all add: roundHalfEven_def)

lemma fl_gap_16: "x = 3602879701896397 / 144115188075855872 \<Longrightarrow> fl x = 3602879701896397 / 144115188075855872"
  by (erule ssubst, subst fl_eval_neg[where n = 58]) (simp_all add: roundHalfEven_def)

lemma fl_gap_17: "x = 270215977642229775 / 18014398509481984 \<Longrightarrow> fl x = 15"
  by (erule ssubst, subst fl_eval_neg[where n = 49]) (simp_all add: roundHalfEven_def)

lemma fl_gap_18: "x = 2 / 5 \<Longrightarrow> fl x = 3602879701896397 / 9007199254740992"
  by (erule ssubst, subst fl_eval_neg[where n = 54]) (simp_all add: roundHalfEven_def)

lemma fl_gap_19: "x = 270215977642229775 / 1125899906842624 \<Longrightarrow> fl x = 240"
  by (erule ssubst, subst fl_eval_neg[where n = 45]) (simp_all add: roundHalfEven_def)

lemma fl_gap_20: "x = 3602879701896397 / 18014398509481984 \<Longrightarrow> fl x = 3602879701896397 / 18014398509481984"
  by (erule ssubst, subst fl_eval_neg[where n = 55]) (simp_all add: roundHalfEven_def)

lemma fl_gap_21: "x = 3602879701896397 / 90071992547409920 \<Longrightarrow> fl x = 5764607523034235 / 144115188075855872"
  by (erule ssubst, subst fl_eval_neg[where n = 57]) (simp_all add: roundHalfEven_def)

lemma fl_gap_22: "x = 432345564227567625 / 18014398509481984 \<Longrightarrow> fl x = 24"
  by (erule ssubst, subst fl_eval_neg[where n = 48]) (simp_all add: roundHalfEven_def)

lemma fl_gap_23: "x = 5764607523034235 / 288230376151711744 \<Longrightarrow> fl x = 5764607523034235 / 288230376151711744"
  by (erule ssubst, subst fl_eval_neg[where n = 58]) (simp_all add: roundHalfEven_def)

lemmas fl_gap_evals = fl_gap_1 fl_gap_2 fl_gap_3 fl_gap_4 fl_gap_5 fl_gap_6 fl_gap_7 fl_gap_8 fl_gap_9 fl_gap_10 fl_gap_11 fl_gap_12 fl_gap_13 fl_gap_14 fl_gap_15 fl_gap_16 fl_gap_17 fl_gap_18 fl_gap_19 fl_gap_20 fl_gap_21 fl_gap_22 fl_gap_23

lemma ceiling_log10_tenth: "\<lceil>log 10 (3602879701896397 / 36028797018963968::real)\<rceil> = 0"
proof -
  have "- 1 < log 10 (3602879701896397 / 36028797018963968::real)" by (subst less_log_iff) simp_all
  moreover have "log 10 (3602879701896397 / 36028797018963968::real) \<le> 0" by (subst log_le_iff) simp_all
  ultimately show ?thesis by (simp add: ceiling_eq_iff)
qed

lemma startSpan_double_tenth: "startSpan doubleArith (3602879701896397 / 36028797018963968) = 1"
  by (simp add: startSpan_def doubleArith_def ceiling_log10_tenth fl_gap_evals)

lemma spanLoop_double_tenth:
  "spanLoop fl [2, 5 / 2, 2] 600 24 1 0 = Some (3602879701896397 / 72057594037927936)"
  "spanLoop fl [2, 2, 5 / 2] 600 24 1 0 = Some (3602879701896397 / 72057594037927936)"
  "spanLoop fl [5 / 2, 2, 2] 600 24 1 0 = Some (5764607523034235 / 144115188075855872)"
  by ((subst spanLoop.simps, simp add: divAt_def fl_gap_evals)+)

text \<open>
  C3 (as amended). For every \<open>valueRange > 0\<close>, \<open>pixelExtent > 0\<close>, \<open>minPixelGap\<close> and
  \<open>previousInterval > 0\<close>, and for every rounding of the arithmetic: if the spacing that
  the code computes, \<open>previousInterval * (pixelExtent / valueRange)\<close> with the quotient and
  the product rounded, lies between the rounded \<open>0.5 * minPixelGap\<close> and the rounded
  \<open>3 * minPixelGap\<close>, then \<open>pick\<close> returns \<open>previousInterval\<close> unchanged; in particular when
  the computed spacing and the two bounds are exact and
  \<open>previousInterval * pixelExtent / valueRange\<close> lies within
  \<open>[0.5 * minPixelGap, 3 * minPixelGap]\<close>.
\<close>

theorem pickNiceInterval_hysteresis:
  fixes A :: arith and valueRange pixelExtent minPixelGap previousInterval :: real
  assumes "0 < valueRange" and "0 < pixelExtent" and "0 < previousInterval"
  defines "spacing \<equiv> rnd A (previousInterval * rnd A (pixelExtent / valueRange))"
  shows "(rnd A (minPixelGap * 0.5) \<le> spacing \<and> spacing \<le> rnd A (minPixelGap * 3) \<longrightarrow>
            pickNiceInterval A valueRange pixelExtent minPixelGap previousInterval
              = Some previousInterval)
       \<and> (spacing = previousInterval * pixelExtent / valueRange
            \<and> rnd A (minPixelGap * 0.5) = 0.5 * minPixelGap
            \<and> rnd A (minPixelGap * 3) = 3 * minPixelGap
            \<and> 0.5 * minPixelGap \<le> previousInterval * pixelExtent / valueRange
            \<and> previousInterval * pixelExtent / valueRange \<le> 3 * minPixelGap \<longrightarrow>
            pickNiceInterval A valueRange pixelExtent minPixelGap previousInterval
              = Some previousInterval)"
proof -
  have band: "pickNiceInterval A valueRange pixelExtent minPixelGap previousInterval
                = Some previousInterval"
    if "rnd A (minPixelGap * 0.5) \<le> spacing" and "spacing \<le> rnd A (minPixelGap * 3)"
    using assms(1-3) that by (simp add: pickNiceInterval_def Let_def spacing_def)
  show ?thesis
  proof (intro conjI impI)
    assume "rnd A (minPixelGap * 0.5) \<le> spacing \<and> spacing \<le> rnd A (minPixelGap * 3)"
    then show "pickNiceInterval A valueRange pixelExtent minPixelGap previousInterval
                 = Some previousInterval"
      using band by simp
  next
    assume E: "spacing = previousInterval * pixelExtent / valueRange
            \<and> rnd A (minPixelGap * 0.5) = 0.5 * minPixelGap
            \<and> rnd A (minPixelGap * 3) = 3 * minPixelGap
            \<and> 0.5 * minPixelGap \<le> previousInterval * pixelExtent / valueRange
            \<and> previousInterval * pixelExtent / valueRange \<le> 3 * minPixelGap"
    then have "rnd A (minPixelGap * 0.5) \<le> spacing" "spacing \<le> rnd A (minPixelGap * 3)"
      by linarith+
    then show "pickNiceInterval A valueRange pixelExtent minPixelGap previousInterval
                 = Some previousInterval"
      by (rule band)
  qed
qed

theorem pickNiceInterval_hysteresis_witness:
  "pickNiceInterval doubleArith 100 300 36 20 = Some 20"
  using pickNiceInterval_hysteresis[where A = doubleArith and valueRange = 100
          and pixelExtent = 300 and minPixelGap = 36 and previousInterval = 20]
  by (simp add: doubleArith_def fl_pick_evals)

text \<open>
  The claim as first stated takes the spacing \<open>previousInterval * pixelExtent / valueRange\<close>
  exactly. In double arithmetic with \<open>valueRange = 35\<close>, \<open>pixelExtent = 180\<close>,
  \<open>minPixelGap = 36\<close> and \<open>previousInterval = 21\<close> the exact spacing is \<open>108 = 3 * 36\<close>,
  inside the band, while the quotient \<open>180 / 35\<close> rounds upwards and the computed spacing
  is the double next above \<open>108\<close>: the search runs and returns \<open>10\<close>.
\<close>

theorem pickNiceInterval_hysteresis_counterexample:
  "pickNiceInterval doubleArith 35 180 36 21 = Some 10
   \<and> (0::real) < 35 \<and> (0::real) < 180 \<and> (0::real) < 21
   \<and> (0.5::real) * 36 \<le> 21 * 180 / 35 \<and> (21::real) * 180 / 35 \<le> 3 * 36"
  by (simp add: pick_double_35)

text \<open>
  C4 (as amended). For every \<open>valueRange > 0\<close>, \<open>pixelExtent > 0\<close> and \<open>minPixelGap > 0\<close>
  where the hysteresis test fails, for every rounding that rounds like doubles and a
  non-negative starting span \<open>10^ceil(log10(valueRange))\<close>: each of the cyclic divisor
  sequences \<open>[2, 2.5, 2]\<close>, \<open>[2, 2, 2.5]\<close>, \<open>[2.5, 2, 2]\<close> is searched from the starting span
  by rounded divisions, up to the first division whose computed spacing falls below
  \<open>minPixelGap\<close>; \<open>pick\<close> returns the smallest of the three spans reached; its computed
  spacing \<open>span * (pixelExtent / valueRange)\<close> is at least \<open>minPixelGap\<close> whenever that of
  the starting span is; and when the first division (by \<open>2\<close> and by \<open>2.5\<close>) already falls
  below \<open>minPixelGap\<close>, the undivided starting span is returned.
\<close>

theorem pickNiceInterval_search:
  fixes A :: arith and valueRange pixelExtent minPixelGap previousInterval :: real
  assumes rl: "roundsLikeDouble (rnd A)"
    and v: "0 < valueRange" and h: "0 < pixelExtent" and g: "0 < minPixelGap"
    and st: "0 \<le> startSpan A valueRange"
    and nohyst: "\<not> (0 < previousInterval
                    \<and> rnd A (minPixelGap * 0.5)
                          \<le> rnd A (previousInterval * rnd A (pixelExtent / valueRange))
                    \<and> rnd A (previousInterval * rnd A (pixelExtent / valueRange))
                          \<le> rnd A (minPixelGap * 3))"
  defines "r \<equiv> rnd A"
    and "start \<equiv> startSpan A valueRange"
    and "px \<equiv> rnd A (pixelExtent / valueRange)"
  shows "\<exists>n1 n2 n3 c1 c2 c3.
           searchStops r [2, 2.5, 2] px minPixelGap start n1 \<and> c1 = divFrom r [2, 2.5, 2] 0 n1 start
         \<and> searchStops r [2, 2, 2.5] px minPixelGap start n2 \<and> c2 = divFrom r [2, 2, 2.5] 0 n2 start
         \<and> searchStops r [2.5, 2, 2] px minPixelGap start n3 \<and> c3 = divFrom r [2.5, 2, 2] 0 n3 start
         \<and> pickNiceInterval A valueRange pixelExtent minPixelGap previousInterval
             = Some (min c1 (min c2 c3))
         \<and> (minPixelGap \<le> r (start * px) \<longrightarrow> minPixelGap \<le> r (min c1 (min c2 c3) * px))
         \<and> (r (r (start / 2) * px) < minPixelGap \<and> r (r (start / 2.5) * px) < minPixelGap \<longrightarrow>
               pickNiceInterval A valueRange pixelExtent minPixelGap previousInterval = Some start)"
proof -
  have rl': "roundsLikeDouble r" using rl by (simp only: r_def)
  have st': "0 \<le> start" using st by (simp only: start_def)
  have mem: "[2, 2.5, 2] \<in> set divisorSets" "[2, 2, 2.5] \<in> set divisorSets"
    "[2.5, 2, 2] \<in> set divisorSets" by (simp_all add: divisorSets_def)
  from spanLoop_search[OF rl' g mem(1) st', of px]
  obtain n1 where n1: "spanLoop r [2, 2.5, 2] px minPixelGap start 0
                         = Some (divFrom r [2, 2.5, 2] 0 n1 start)"
    "searchStops r [2, 2.5, 2] px minPixelGap start n1"
    "minPixelGap \<le> r (start * px) \<longrightarrow> minPixelGap \<le> r (divFrom r [2, 2.5, 2] 0 n1 start * px)"
    by blast
  from spanLoop_search[OF rl' g mem(2) st', of px]
  obtain n2 where n2: "spanLoop r [2, 2, 2.5] px minPixelGap start 0
                         = Some (divFrom r [2, 2, 2.5] 0 n2 start)"
    "searchStops r [2, 2, 2.5] px minPixelGap start n2"
    "minPixelGap \<le> r (start * px) \<longrightarrow> minPixelGap \<le> r (divFrom r [2, 2, 2.5] 0 n2 start * px)"
    by blast
  from spanLoop_search[OF rl' g mem(3) st', of px]
  obtain n3 where n3: "spanLoop r [2.5, 2, 2] px minPixelGap start 0
                         = Some (divFrom r [2.5, 2, 2] 0 n3 start)"
    "searchStops r [2.5, 2, 2] px minPixelGap start n3"
    "minPixelGap \<le> r (start * px) \<longrightarrow> minPixelGap \<le> r (divFrom r [2.5, 2, 2] 0 n3 start * px)"
    by blast
  define c1 where "c1 = divFrom r [2, 2.5, 2] 0 n1 start"
  define c2 where "c2 = divFrom r [2, 2, 2.5] 0 n2 start"
  define c3 where "c3 = divFrom r [2.5, 2, 2] 0 n3 start"
  have best: "bestSpan A valueRange px minPixelGap divisorSets None
                = Some (Some (min c1 (min c2 c3)))"
    using n1(1) n2(1) n3(1)
    by (simp add: divisorSets_def start_def[symmetric] r_def[symmetric] lowerMin_chain
                  c1_def c2_def c3_def)
  have pick: "pickNiceInterval A valueRange pixelExtent minPixelGap previousInterval
                = Some (min c1 (min c2 c3))"
    using v h nohyst best
    by (auto simp add: pickNiceInterval_def Let_def px_def[symmetric] simp del: bestSpan.simps)
  have big: "minPixelGap \<le> r (min c1 (min c2 c3) * px)" if "minPixelGap \<le> r (start * px)"
    using that n1(3) n2(3) n3(3) by (auto simp: min_def c1_def c2_def c3_def)
  have zero: "n = 0"
    if "searchStops r divs px minPixelGap start n"
      and "r (r (start / divAt divs 0) * px) < minPixelGap" for divs n
  proof (rule ccontr)
    assume "n \<noteq> 0"
    then have "0 < n" by simp
    with that(1) have "minPixelGap \<le> r (r (divFrom r divs 0 0 start / divAt divs 0) * px)"
      unfolding searchStops_def by blast
    with that(2) show False by simp
  qed
  have none: "min c1 (min c2 c3) = start"
    if "r (r (start / 2) * px) < minPixelGap \<and> r (r (start / 2.5) * px) < minPixelGap"
  proof -
    have "n1 = 0" using n1(2) that by (intro zero[of "[2, 2.5, 2]"]) (simp_all add: divAt_def)
    moreover have "n2 = 0" using n2(2) that by (intro zero[of "[2, 2, 2.5]"]) (simp_all add: divAt_def)
    moreover have "n3 = 0" using n3(2) that by (intro zero[of "[2.5, 2, 2]"]) (simp_all add: divAt_def)
    ultimately show ?thesis by (simp add: c1_def c2_def c3_def)
  qed
  have "searchStops r [2, 2.5, 2] px minPixelGap start n1 \<and> c1 = divFrom r [2, 2.5, 2] 0 n1 start
         \<and> searchStops r [2, 2, 2.5] px minPixelGap start n2 \<and> c2 = divFrom r [2, 2, 2.5] 0 n2 start
         \<and> searchStops r [2.5, 2, 2] px minPixelGap start n3 \<and> c3 = divFrom r [2.5, 2, 2] 0 n3 start
         \<and> pickNiceInterval A valueRange pixelExtent minPixelGap previousInterval
             = Some (min c1 (min c2 c3))
         \<and> (minPixelGap \<le> r (start * px) \<longrightarrow> minPixelGap \<le> r (min c1 (min c2 c3) * px))
         \<and> (r (r (start / 2) * px) < minPixelGap \<and> r (r (start / 2.5) * px) < minPixelGap \<longrightarrow>
               pickNiceInterval A valueRange pixelExtent minPixelGap previousInterval = Some start)"
    using n1(2) n2(2) n3(2) pick big none by (simp add: c1_def c2_def c3_def)
  then show ?thesis by blast
qed

theorem pickNiceInterval_search_witness:
  "pickNiceInterval doubleArith 100 300 36 0 = Some 20
   \<and> (36::real) \<le> fl (20 * fl (300 / 100))"
proof -
  have rl: "roundsLikeDouble (rnd doubleArith)" by (simp add: doubleArith_def roundsLikeDouble_fl)
  have st: "0 \<le> startSpan doubleArith 100" by (simp add: startSpan_double_100)
  have nohyst: "\<not> (0 < (0::real)
                    \<and> rnd doubleArith (36 * 0.5)
                          \<le> rnd doubleArith (0 * rnd doubleArith (300 / 100))
                    \<and> rnd doubleArith (0 * rnd doubleArith (300 / 100))
                          \<le> rnd doubleArith (36 * 3))"
    by simp
  from pickNiceInterval_search[where A = doubleArith and valueRange = 100 and pixelExtent = 300
         and minPixelGap = 36 and previousInterval = 0, OF rl _ _ _ st nohyst]
  obtain c :: real where c: "pickNiceInterval doubleArith 100 300 36 0 = Some c"
    "36 \<le> rnd doubleArith (startSpan doubleArith 100 * rnd doubleArith (300 / 100))
       \<longrightarrow> 36 \<le> rnd doubleArith (c * rnd doubleArith (300 / 100))"
    by auto
  from c(1) have "c = 20" by (simp add: pick_double_tall)
  with c(2) have "(36::real) \<le> fl (20 * fl (300 / 100))"
    by (simp add: startSpan_double_100 doubleArith_def fl_pick_evals
          startSpan_double_100[unfolded doubleArith_def])
  then show ?thesis by (simp add: pick_double_tall)
qed

text \<open>
  The claim as first stated promises a spacing of at least \<open>minPixelGap\<close> in every case.
  The search only divides the starting span: with \<open>valueRange = 100\<close>, \<open>pixelExtent = 30\<close>
  and \<open>minPixelGap = 36\<close> no division is made, and the span \<open>100\<close> that is returned is
  spaced \<open>30\<close> pixels.
\<close>

theorem pickNiceInterval_spacing_counterexample:
  "pickNiceInterval doubleArith 100 30 36 0 = Some 100
   \<and> (0::real) < 100 \<and> (0::real) < 30 \<and> (0::real) < 36
   \<and> (100::real) * 30 / 100 < 36"
  by (simp add: pick_double_short)

text \<open>
  The spacing that is kept at or above \<open>minPixelGap\<close> is the computed one. With the double
  next to \<open>0.1\<close> as \<open>valueRange\<close>, \<open>pixelExtent = 60\<close> and \<open>minPixelGap = 24\<close> the starting
  span \<open>1\<close> is spaced more than \<open>24\<close>, the double next to \<open>0.04\<close> is returned, its computed
  spacing is \<open>24\<close>, and its exact spacing \<open>span * pixelExtent / valueRange\<close> is below \<open>24\<close>.
\<close>

lemma pickNiceInterval_rounded_spacing:
  "pickNiceInterval doubleArith (3602879701896397 / 36028797018963968) 60 24 0 = Some (5764607523034235 / 144115188075855872)
   \<and> (24::real) \<le> 1 * 60 / (3602879701896397 / 36028797018963968)
   \<and> (5764607523034235 / 144115188075855872) * 60 / (3602879701896397 / 36028797018963968) < (24::real)"
  by (simp add: pickNiceInterval_def Let_def divisorSets_def doubleArith_def
        fl_gap_evals spanLoop_double_tenth lowerMin_def
        startSpan_double_tenth[unfolded doubleArith_def])

subsection \<open>GridTickGenerator\<close>

text \<open>
  The tick loop returns when every addition increases the loop variable and the rounding
  has finitely many values on the interval the loop runs through; it never returns when
  an addition leaves the loop variable unchanged below \<open>max\<close>.
\<close>

lemma tickFrom_shift: "tickFrom r s v (Suc n) = r (tickFrom r s v n + s)"
  by (induction n arbitrary: v) simp_all

lemma tickFrom_map_Suc:
  "map (tickFrom r s v) [0..<Suc n] = v # map (tickFrom r s (r (v + s))) [0..<n]"
  by (simp only: map_upt_Suc tickFrom.simps)

lemma tickLoop_result:
  assumes s: "0 < s" and fin: "finite (r ` {lo..mx + s})"
    and prog: "\<And>v. lo \<le> v \<Longrightarrow> v \<le> mx \<Longrightarrow> v < r (v + s)"
  shows "lo \<le> v \<Longrightarrow>
         \<exists>n. tickLoop r mx s v acc = Some (acc @ map (tickFrom r s v) [0..<n])
            \<and> mx < tickFrom r s v n
            \<and> (\<forall>i < n. tickFrom r s v i \<le> mx)"
proof (induction "card {y \<in> r ` {lo..mx + s}. v < y}" arbitrary: v acc rule: less_induct)
  case less
  let ?S = "r ` {lo..mx + s}"
  let ?v = "r (v + s)"
  show ?case
  proof (cases "v \<le> mx")
    case False
    then have "tickLoop r mx s v acc = Some acc" by (subst tickLoop.simps) simp
    with False show ?thesis by (intro exI[of _ 0]) simp
  next
    case True
    have up: "v < ?v" using less.prems True by (rule prog)
    have mem: "?v \<in> ?S" using less.prems True s by simp
    have sub: "{y \<in> ?S. ?v < y} \<subset> {y \<in> ?S. v < y}"
    proof
      show "{y \<in> ?S. ?v < y} \<subseteq> {y \<in> ?S. v < y}" using up by auto
      have "?v \<in> {y \<in> ?S. v < y}" using mem up by simp
      moreover have "?v \<notin> {y \<in> ?S. ?v < y}" by simp
      ultimately show "{y \<in> ?S. ?v < y} \<noteq> {y \<in> ?S. v < y}" by blast
    qed
    have "finite {y \<in> ?S. v < y}" using fin by simp
    then have c: "card {y \<in> ?S. ?v < y} < card {y \<in> ?S. v < y}"
      using sub by (intro psubset_card_mono)
    have lo': "lo \<le> ?v" using less.prems up by simp
    from less.hyps[OF c lo', of "acc @ [v]"]
    obtain n where n: "tickLoop r mx s ?v (acc @ [v])
                         = Some ((acc @ [v]) @ map (tickFrom r s ?v) [0..<n])"
      "mx < tickFrom r s ?v n" "\<forall>i < n. tickFrom r s ?v i \<le> mx"
      by blast
    have step: "tickLoop r mx s v acc = tickLoop r mx s ?v (acc @ [v])"
      using True by (subst tickLoop.simps) simp
    have a: "tickLoop r mx s v acc = Some (acc @ map (tickFrom r s v) [0..<Suc n])"
      using step n(1) by (simp only: tickFrom_map_Suc) simp
    have b: "mx < tickFrom r s v (Suc n)" using n(2) by simp
    have d: "tickFrom r s v i \<le> mx" if "i < Suc n" for i
    proof (cases i)
      case 0
      with True show ?thesis by simp
    next
      case (Suc j)
      with that have "j < n" by simp
      with n(3) have "tickFrom r s ?v j \<le> mx" by blast
      with Suc show ?thesis by simp
    qed
    from a b d show ?thesis by (intro exI[of _ "Suc n"]) blast
  qed
qed

lemma tickFrom_ascending:
  assumes prog: "\<And>v. lo \<le> v \<Longrightarrow> v \<le> mx \<Longrightarrow> v < r (v + s)"
    and below: "\<forall>i < n. tickFrom r s v i \<le> mx" and lo: "lo \<le> v"
  shows "j \<le> n \<Longrightarrow> i < j \<Longrightarrow> tickFrom r s v i < tickFrom r s v j \<and> lo \<le> tickFrom r s v i"
proof (induction j arbitrary: i)
  case 0
  then show ?case by simp
next
  case (Suc j)
  have jn: "j \<le> n" "j < n" using Suc.prems(1) by simp_all
  have loj: "lo \<le> tickFrom r s v j"
  proof (cases j)
    case 0
    with lo show ?thesis by simp
  next
    case (Suc j')
    then have "j' < j" by simp
    from Suc.IH[OF jn(1) this] have "tickFrom r s v j' < tickFrom r s v j" "lo \<le> tickFrom r s v j'"
      by simp_all
    then show ?thesis by simp
  qed
  have "tickFrom r s v j \<le> mx" using below jn(2) by blast
  with loj have up: "tickFrom r s v j < tickFrom r s v (Suc j)"
    unfolding tickFrom_shift by (rule prog)
  show ?case
  proof (cases "i = j")
    case True
    with up loj show ?thesis by simp
  next
    case False
    with Suc.prems(2) have "i < j" by simp
    from Suc.IH[OF jn(1) this] up show ?thesis by simp
  qed
qed

lemma tickFrom_exact:
  assumes ex: "\<And>v. lo \<le> v \<Longrightarrow> v \<le> mx \<Longrightarrow> r (v + s) = v + s"
    and below: "\<forall>i < n. tickFrom r s v i \<le> mx" and lo: "lo \<le> v" and s: "0 \<le> s"
  shows "i \<le> n \<Longrightarrow> tickFrom r s v i = v + of_nat i * s"
proof (induction i)
  case 0
  then show ?case by simp
next
  case (Suc i)
  then have i: "i < n" "i \<le> n" by simp_all
  have eq: "tickFrom r s v i = v + of_nat i * s" using Suc.IH i(2) by simp
  have "0 \<le> of_nat i * s" using s by simp
  then have "lo \<le> tickFrom r s v i" using lo eq by simp
  moreover have "tickFrom r s v i \<le> mx" using below i(1) by blast
  ultimately have "r (tickFrom r s v i + s) = tickFrom r s v i + s" by (rule ex)
  then show ?case unfolding tickFrom_shift using eq by (simp add: algebra_simps)
qed

lemma niceStepOf_snap:
  fixes A :: arith and rawStep :: real
  defines "magnitude \<equiv> fpow10 A (of_int \<lfloor>flog10 A rawStep\<rfloor>)"
  defines "residual \<equiv> rnd A (rawStep / magnitude)"
  defines "niceStep \<equiv> (if residual \<le> 1.5 then magnitude
                        else if residual \<le> 3 then rnd A (2 * magnitude)
                        else if residual \<le> 7 then rnd A (5 * magnitude)
                        else rnd A (10 * magnitude))"
  shows "niceStepOf A rawStep = niceStep"
  unfolding niceStepOf_def Let_def niceStep_def residual_def magnitude_def ..

lemma niceGridTicks_loop:
  assumes "0 < rnd A (mx - mn)" and "0 < count" and "rnd A (rnd A (mx - mn) / count) = rawStep"
    and "rawStep \<noteq> 0" and "niceStepOf A rawStep = niceStep" and "niceStep \<noteq> 0"
  shows "niceGridTicks A mn mx count
           = tickLoop (rnd A) mx niceStep (rnd A (of_int \<lceil>rnd A (mn / niceStep)\<rceil> * niceStep)) []"
  using assms by (simp add: niceGridTicks_def Let_def)

text \<open>Evaluations of the generator in double arithmetic.\<close>

lemma tickLoop_stuck:
  assumes le: "v \<le> mx" and st: "r (v + s) = v"
  shows "tickLoop r mx s v acc = None"
proof -
  define P where "P = (\<lambda>r' mx' s' v' (acc' :: real list) (y :: real list).
                         \<not> (r' = r \<and> mx' = mx \<and> s' = s \<and> v' = v))"
  have "P r mx s v acc y" if "tickLoop r mx s v acc = Some y" for y
  proof (rule tickLoop.raw_induct[where P = P, OF _ that])
    fix loop r' mx' s' v' acc' y'
    assume IH: "\<And>a b c d e y. loop a b c d e = Some y \<Longrightarrow> P a b c d e y"
      and step: "(if v' \<le> mx' then loop r' mx' s' (r' (v' + s')) (acc' @ [v']) else Some acc')
                   = Some y'"
    show "P r' mx' s' v' acc' y'"
      unfolding P_def
    proof
      assume eq: "r' = r \<and> mx' = mx \<and> s' = s \<and> v' = v"
      with step le st have "loop r mx s v (acc' @ [v]) = Some y'" by simp
      from IH[OF this] show False by (simp add: P_def)
    qed
  qed
  then have no: "tickLoop r mx s v acc \<noteq> Some y" for y by (auto simp: P_def)
  show ?thesis
  proof (cases "tickLoop r mx s v acc")
    case None
    then show ?thesis .
  next
    case (Some a)
    with no[of a] show ?thesis by simp
  qed
qed

lemma fl_tick_1: "x = 100 \<Longrightarrow> fl x = 100"
  by (erule ssubst, subst fl_eval_neg[where n = 46]) (simp_all add: roundHalfEven_def)

lemma fl_tick_2: "x = 20 \<Longrightarrow> fl x = 20"
  by (erule ssubst, subst fl_eval_neg[where n = 48]) (simp_all add: roundHalfEven_def)

lemma fl_tick_3: "x = 10 \<Longrightarrow> fl x = 10"
  by (erule ssubst, subst fl_eval_neg[where n = 49]) (simp_all add: roundHalfEven_def)

lemma fl_tick_4: "x = 2 \<Longrightarrow> fl x = 2"
  by (erule ssubst, subst fl_eval_neg[where n = 51]) (simp_all add: roundHalfEven_def)

lemma fl_tick_5: "x = 40 \<Longrightarrow> fl x = 40"
  by (erule ssubst, subst fl_eval_neg[where n = 47]) (simp_all add: roundHalfEven_def)

lemma fl_tick_6: "x = 60 \<Longrightarrow> fl x = 60"
  by (erule ssubst, subst fl_eval_neg[where n = 47]) (simp_all add: roundHalfEven_def)

lemma fl_tick_7: "x = 80 \<Longrightarrow> fl x = 80"
  by (erule ssubst, subst fl_eval_neg[where n = 46]) (simp_all add: roundHalfEven_def)

lemma fl_tick_8: "x = 120 \<Longrightarrow> fl x = 120"
  by (erule ssubst, subst fl_eval_neg[where n = 46]) (simp_all add: roundHalfEven_def)

lemma fl_tick_9: "x = 900719925474099 / 1125899906842624 \<Longrightarrow> fl x = 900719925474099 / 1125899906842624"
  by (erule ssubst, subst fl_eval_neg[where n = 53]) (simp_all add: roundHalfEven_def)

lemma fl_tick_10: "x = 900719925474099 / 5629499534213120 \<Longrightarrow> fl x = 2882303761517117 / 18014398509481984"
  by (erule ssubst, subst fl_eval_neg[where n = 55]) (simp_all add: roundHalfEven_def)

lemma fl_tick_11: "x = 1 / 10 \<Longrightarrow> fl x = 3602879701896397 / 36028797018963968"
  by (erule ssubst, subst fl_eval_neg[where n = 56]) (simp_all add: roundHalfEven_def)

lemma fl_tick_12: "x = 5764607523034234 / 3602879701896397 \<Longrightarrow> fl x = 900719925474099 / 562949953421312"
  by (erule ssubst, subst fl_eval_neg[where n = 52]) (simp_all add: roundHalfEven_def)

lemma fl_tick_13: "x = 3602879701896397 / 18014398509481984 \<Longrightarrow> fl x = 3602879701896397 / 18014398509481984"
  by (erule ssubst, subst fl_eval_neg[where n = 55]) (simp_all add: roundHalfEven_def)

lemma fl_tick_14: "x = 64851834634135152 / 3602879701896397 \<Longrightarrow> fl x = 18"
  by (erule ssubst, subst fl_eval_neg[where n = 48]) (simp_all add: roundHalfEven_def)

lemma fl_tick_15: "x = 32425917317067573 / 9007199254740992 \<Longrightarrow> fl x = 8106479329266893 / 2251799813685248"
  by (erule ssubst, subst fl_eval_neg[where n = 51]) (simp_all add: roundHalfEven_def)

lemma fl_tick_16: "x = 68454714336031541 / 18014398509481984 \<Longrightarrow> fl x = 8556839292003943 / 2251799813685248"
  by (erule ssubst, subst fl_eval_neg[where n = 51]) (simp_all add: roundHalfEven_def)

lemma fl_tick_17: "x = 72057594037927941 / 18014398509481984 \<Longrightarrow> fl x = 4"
  by (erule ssubst, subst fl_eval_neg[where n = 50]) (simp_all add: roundHalfEven_def)

lemma fl_tick_18: "x = 75660473739824333 / 18014398509481984 \<Longrightarrow> fl x = 4728779608739021 / 1125899906842624"
  by (erule ssubst, subst fl_eval_neg[where n = 50]) (simp_all add: roundHalfEven_def)

lemma fl_tick_19: "x = 79263353441720733 / 18014398509481984 \<Longrightarrow> fl x = 2476979795053773 / 562949953421312"
  by (erule ssubst, subst fl_eval_neg[where n = 50]) (simp_all add: roundHalfEven_def)

lemma fl_tick_20: "x = 82866233143617133 / 18014398509481984 \<Longrightarrow> fl x = 5179139571476071 / 1125899906842624"
  by (erule ssubst, subst fl_eval_neg[where n = 50]) (simp_all add: roundHalfEven_def)

lemma fl_tick_21: "x = 1 \<Longrightarrow> fl x = 1"
  by (erule ssubst, subst fl_eval_neg[where n = 52]) (simp_all add: roundHalfEven_def)

lemma fl_tick_22: "x = 9007199254740992 \<Longrightarrow> fl x = 9007199254740992"
  by (erule ssubst, subst fl_eval_pos[where n = 1]) (simp_all add: roundHalfEven_def)

lemma fl_tick_23: "x = 9007199254740993 \<Longrightarrow> fl x = 9007199254740992"
  by (erule ssubst, subst fl_eval_pos[where n = 1]) (simp_all add: roundHalfEven_def)

lemma fl_tick_24: "x = - 2 \<Longrightarrow> fl x = - 2"
  by (erule ssubst, subst fl_eval_neg[where n = 51]) (simp_all add: roundHalfEven_def)

lemmas fl_tick_evals = fl_zero fl_tick_1 fl_tick_2 fl_tick_3 fl_tick_4 fl_tick_5 fl_tick_6 fl_tick_7 fl_tick_8 fl_tick_9 fl_tick_10 fl_tick_11 fl_tick_12 fl_tick_13 fl_tick_14 fl_tick_15 fl_tick_16 fl_tick_17 fl_tick_18 fl_tick_19 fl_tick_20 fl_tick_21 fl_tick_22 fl_tick_23 fl_tick_24

lemma floor_log10_20: "\<lfloor>log 10 (20::real)\<rfloor> = 1"
  using floor_log_eq_powr_iff[of 20 10 1] by simp

lemma floor_log10_raw: "\<lfloor>log 10 (2882303761517117 / 18014398509481984::real)\<rfloor> = - 1"
  using floor_log_eq_powr_iff[of "2882303761517117 / 18014398509481984" 10 "- 1"] by simp

lemma niceStepOf_double_20: "niceStepOf doubleArith 20 = 20"
  by (simp add: niceStepOf_def Let_def doubleArith_def floor_log10_20 fl_tick_evals)

lemma niceStepOf_double_raw: "niceStepOf doubleArith (2882303761517117 / 18014398509481984) = 3602879701896397 / 18014398509481984"
  by (simp add: niceStepOf_def Let_def doubleArith_def floor_log10_raw fl_tick_evals)

lemma niceStepOf_double_1: "niceStepOf doubleArith 1 = 1"
  by (simp add: niceStepOf_def Let_def doubleArith_def fl_tick_evals)

lemma tickLoop_double_100: "tickLoop fl 100 20 0 [] = Some [0, 20, 40, 60, 80, 100]"
  by ((subst tickLoop.simps, simp add: fl_tick_evals)+)

lemma tickLoop_double_low:
  "tickLoop fl (2476979795053773 / 562949953421312) (3602879701896397 / 18014398509481984) (8106479329266893 / 2251799813685248) [] = Some [8106479329266893 / 2251799813685248, 8556839292003943 / 2251799813685248, 4, 4728779608739021 / 1125899906842624, 2476979795053773 / 562949953421312]"
  by ((subst tickLoop.simps, simp add: fl_tick_evals)+)

lemma niceGridTicks_double_100: "niceGridTicks doubleArith 0 100 5 = Some [0, 20, 40, 60, 80, 100]"
  by (simp add: niceGridTicks_def Let_def niceStepOf_double_20 fl_tick_evals tickLoop_double_100
        doubleArith_def niceStepOf_double_20[unfolded doubleArith_def])

lemma niceGridTicks_double_low:
  "niceGridTicks doubleArith (4053239664633447 / 1125899906842624) (2476979795053773 / 562949953421312) 5 = Some [8106479329266893 / 2251799813685248, 8556839292003943 / 2251799813685248, 4, 4728779608739021 / 1125899906842624, 2476979795053773 / 562949953421312]"
  by (simp add: niceGridTicks_def Let_def fl_tick_evals tickLoop_double_low
        doubleArith_def niceStepOf_double_raw[unfolded doubleArith_def])

text \<open>
  C6 (as amended). For every \<open>min\<close>, \<open>max\<close> and \<open>desiredCount\<close>, and for every rounding of
  the arithmetic: \<open>generate(min, max, desiredCount)\<close> returns the empty sequence when the
  computed \<open>max - min\<close> is \<open>\<le> 0\<close>. When it is positive, with \<open>desiredCount > 0\<close>, a nonzero
  raw step and a positive nice step \<open>niceStep\<close> (the power of ten of the raw step, times
  \<open>1\<close>, \<open>2\<close>, \<open>5\<close> or \<open>10\<close> as the residual is at most \<open>1.5\<close>, at most \<open>3\<close>, at most \<open>7\<close> or
  larger), and when every addition \<open>v + niceStep\<close> on \<open>[start, max]\<close> increases \<open>v\<close> (the
  rounding having finitely many values on \<open>[start, max + niceStep]\<close>, as doubles have),
  \<open>generate\<close> returns; the result is strictly ascending; its elements are the running sums
  \<open>start\<close>, \<open>start + niceStep\<close>, ... (each sum rounded) up to the last one that is \<open>\<le> max\<close>,
  each within \<open>[start, max]\<close>, where \<open>start\<close> is the computed \<open>ceil(min / niceStep) * niceStep\<close>;
  and when the start and the additions are exact, every element is an integer multiple of
  \<open>niceStep\<close> and lies within \<open>[min, max]\<close>.
\<close>

theorem niceGridTicks_ticks:
  fixes A :: arith and mn mx count :: real
  defines "rng \<equiv> rnd A (mx - mn)"
  defines "rawStep \<equiv> rnd A (rng / count)"
  defines "magnitude \<equiv> fpow10 A (of_int \<lfloor>flog10 A rawStep\<rfloor>)"
  defines "residual \<equiv> rnd A (rawStep / magnitude)"
  defines "niceStep \<equiv> (if residual \<le> 1.5 then magnitude
                        else if residual \<le> 3 then rnd A (2 * magnitude)
                        else if residual \<le> 7 then rnd A (5 * magnitude)
                        else rnd A (10 * magnitude))"
  defines "k \<equiv> \<lceil>rnd A (mn / niceStep)\<rceil>"
  defines "start \<equiv> rnd A (of_int k * niceStep)"
  shows "(rng \<le> 0 \<longrightarrow> niceGridTicks A mn mx count = Some [])
       \<and> (0 < rng \<and> 0 < count \<and> rawStep \<noteq> 0 \<and> 0 < niceStep
            \<and> finite (rnd A ` {start..mx + niceStep})
            \<and> (\<forall>v. start \<le> v \<and> v \<le> mx \<longrightarrow> v < rnd A (v + niceStep)) \<longrightarrow>
          (\<exists>ticks. niceGridTicks A mn mx count = Some ticks
             \<and> sorted_wrt (<) ticks
             \<and> (\<forall>i < length ticks. ticks ! i = tickFrom (rnd A) niceStep start i
                                     \<and> start \<le> ticks ! i \<and> ticks ! i \<le> mx)
             \<and> mx < tickFrom (rnd A) niceStep start (length ticks)
             \<and> (rnd A (mn / niceStep) = mn / niceStep \<and> start = of_int k * niceStep
                  \<and> (\<forall>v. start \<le> v \<and> v \<le> mx \<longrightarrow> rnd A (v + niceStep) = v + niceStep) \<longrightarrow>
                (\<forall>i < length ticks. ticks ! i = of_int (k + int i) * niceStep
                                     \<and> mn \<le> ticks ! i))))"
proof (intro conjI impI)
  assume "rng \<le> 0"
  then show "niceGridTicks A mn mx count = Some []"
    by (simp add: niceGridTicks_def rng_def)
next
  assume H: "0 < rng \<and> 0 < count \<and> rawStep \<noteq> 0 \<and> 0 < niceStep
            \<and> finite (rnd A ` {start..mx + niceStep})
            \<and> (\<forall>v. start \<le> v \<and> v \<le> mx \<longrightarrow> v < rnd A (v + niceStep))"
  then have rg: "0 < rng" and cnt: "0 < count" and raw: "rawStep \<noteq> 0" and st: "0 < niceStep"
    and fin: "finite (rnd A ` {start..mx + niceStep})"
    and prog: "\<And>v. start \<le> v \<Longrightarrow> v \<le> mx \<Longrightarrow> v < rnd A (v + niceStep)"
    by simp_all
  have snap: "niceStepOf A rawStep = niceStep"
    unfolding niceStep_def residual_def magnitude_def by (rule niceStepOf_snap)
  have st0: "niceStep \<noteq> 0" using st by simp
  have rg': "0 < rnd A (mx - mn)" using rg by (simp only: rng_def)
  have raw': "rnd A (rnd A (mx - mn) / count) = rawStep" by (simp only: rawStep_def rng_def)
  have unfold: "niceGridTicks A mn mx count = tickLoop (rnd A) mx niceStep start []"
    unfolding start_def k_def using rg' cnt raw' raw snap st0 by (rule niceGridTicks_loop)
  from tickLoop_result[OF st fin prog, of start "[]"]
  obtain n where n: "tickLoop (rnd A) mx niceStep start []
                       = Some (map (tickFrom (rnd A) niceStep start) [0..<n])"
    "mx < tickFrom (rnd A) niceStep start n"
    "\<forall>i < n. tickFrom (rnd A) niceStep start i \<le> mx"
    by auto
  define ticks where "ticks = map (tickFrom (rnd A) niceStep start) [0..<n]"
  have len: "length ticks = n" by (simp add: ticks_def)
  have nth: "ticks ! i = tickFrom (rnd A) niceStep start i" if "i < n" for i
    using that by (simp add: ticks_def)
  have asc: "tickFrom (rnd A) niceStep start i < tickFrom (rnd A) niceStep start j"
    if "i < j" "j \<le> n" for i j
    using tickFrom_ascending[OF prog n(3) order_refl that(2) that(1)] by simp
  have sorted: "sorted_wrt (<) ticks"
    unfolding sorted_wrt_iff_nth_less len
  proof (intro allI impI)
    fix i j assume "i < j" "j < n"
    then show "ticks ! i < ticks ! j" using asc[of i j] by (simp add: nth)
  qed
  have lower: "start \<le> tickFrom (rnd A) niceStep start i" if "i < n" for i
  proof (cases i)
    case 0
    then show ?thesis by simp
  next
    case (Suc j)
    have "tickFrom (rnd A) niceStep start 0 < tickFrom (rnd A) niceStep start i"
      using asc[of 0 i] that Suc by simp
    then show ?thesis by simp
  qed
  have exact: "ticks ! i = of_int (k + int i) * niceStep \<and> mn \<le> ticks ! i"
    if E: "rnd A (mn / niceStep) = mn / niceStep \<and> start = of_int k * niceStep
           \<and> (\<forall>v. start \<le> v \<and> v \<le> mx \<longrightarrow> rnd A (v + niceStep) = v + niceStep)"
      and i: "i < n" for i
  proof -
    from E have e1: "rnd A (mn / niceStep) = mn / niceStep"
      and e2: "start = of_int k * niceStep"
      and e3: "\<forall>v. start \<le> v \<and> v \<le> mx \<longrightarrow> rnd A (v + niceStep) = v + niceStep"
      by (rule conjunct1, rule conjunct2[THEN conjunct1], rule conjunct2[THEN conjunct2])
    have ex: "rnd A (v + niceStep) = v + niceStep" if "start \<le> v" "v \<le> mx" for v
      using e3 that by blast
    have st1: "0 \<le> niceStep" using st by simp
    have "tickFrom (rnd A) niceStep start i = start + of_nat i * niceStep"
      using tickFrom_exact[OF ex n(3) order_refl st1, of i] i by simp
    then have "ticks ! i = start + of_nat i * niceStep" using nth[OF i] by simp
    also have "\<dots> = of_int k * niceStep + of_nat i * niceStep" by (simp only: e2)
    also have "\<dots> = of_int (k + int i) * niceStep" by (simp add: algebra_simps)
    finally have val: "ticks ! i = of_int (k + int i) * niceStep" .
    have "mn / niceStep \<le> of_int k" unfolding k_def e1 by (rule le_of_int_ceiling)
    then have "mn \<le> of_int k * niceStep" using st by (simp add: pos_divide_le_eq)
    also have "\<dots> = start" by (simp only: e2)
    also have "\<dots> \<le> ticks ! i" using lower[OF i] nth[OF i] by simp
    finally show ?thesis using val by simp
  qed
  have main: "niceGridTicks A mn mx count = Some ticks
             \<and> sorted_wrt (<) ticks
             \<and> (\<forall>i < length ticks. ticks ! i = tickFrom (rnd A) niceStep start i
                                     \<and> start \<le> ticks ! i \<and> ticks ! i \<le> mx)
             \<and> mx < tickFrom (rnd A) niceStep start (length ticks)
             \<and> (rnd A (mn / niceStep) = mn / niceStep \<and> start = of_int k * niceStep
                  \<and> (\<forall>v. start \<le> v \<and> v \<le> mx \<longrightarrow> rnd A (v + niceStep) = v + niceStep) \<longrightarrow>
                (\<forall>i < length ticks. ticks ! i = of_int (k + int i) * niceStep
                                     \<and> mn \<le> ticks ! i))"
    unfolding len
  proof (intro conjI allI impI)
    show "niceGridTicks A mn mx count = Some ticks" using unfold n(1) by (simp add: ticks_def)
    show "sorted_wrt (<) ticks" by (rule sorted)
    show "mx < tickFrom (rnd A) niceStep start n" by (rule n(2))
  next
    fix i assume "i < n"
    then show "ticks ! i = tickFrom (rnd A) niceStep start i" by (rule nth)
  next
    fix i assume "i < n"
    then show "start \<le> ticks ! i" using lower[of i] by (simp add: nth)
  next
    fix i assume "i < n"
    then show "ticks ! i \<le> mx" using n(3) by (simp add: nth)
  next
    fix i
    assume "rnd A (mn / niceStep) = mn / niceStep \<and> start = of_int k * niceStep
           \<and> (\<forall>v. start \<le> v \<and> v \<le> mx \<longrightarrow> rnd A (v + niceStep) = v + niceStep)" "i < n"
    then have "ticks ! i = of_int (k + int i) * niceStep \<and> mn \<le> ticks ! i" by (rule exact)
    then show "ticks ! i = of_int (k + int i) * niceStep" by (rule conjunct1)
  next
    fix i
    assume "rnd A (mn / niceStep) = mn / niceStep \<and> start = of_int k * niceStep
           \<and> (\<forall>v. start \<le> v \<and> v \<le> mx \<longrightarrow> rnd A (v + niceStep) = v + niceStep)" "i < n"
    then have "ticks ! i = of_int (k + int i) * niceStep \<and> mn \<le> ticks ! i" by (rule exact)
    then show "mn \<le> ticks ! i" by (rule conjunct2)
  qed
  show "\<exists>ticks. niceGridTicks A mn mx count = Some ticks
             \<and> sorted_wrt (<) ticks
             \<and> (\<forall>i < length ticks. ticks ! i = tickFrom (rnd A) niceStep start i
                                     \<and> start \<le> ticks ! i \<and> ticks ! i \<le> mx)
             \<and> mx < tickFrom (rnd A) niceStep start (length ticks)
             \<and> (rnd A (mn / niceStep) = mn / niceStep \<and> start = of_int k * niceStep
                  \<and> (\<forall>v. start \<le> v \<and> v \<le> mx \<longrightarrow> rnd A (v + niceStep) = v + niceStep) \<longrightarrow>
                (\<forall>i < length ticks. ticks ! i = of_int (k + int i) * niceStep
                                     \<and> mn \<le> ticks ! i))"
    by (rule exI, rule main)
qed

theorem niceGridTicks_ticks_witness:
  "niceGridTicks doubleArith 5 3 5 = Some []
   \<and> niceGridTicks doubleArith 0 100 5 = Some [0, 20, 40, 60, 80, 100]"
proof -
  have a: "niceGridTicks doubleArith 5 3 5 = Some []"
    using niceGridTicks_ticks[where A = doubleArith and mn = 5 and mx = 3 and count = 5,
            THEN conjunct1]
    by (simp add: doubleArith_def fl_tick_evals)
  have fin: "finite (fl ` {0..120})" by (rule fl_finite)
  have prog: "v < fl (v + 20)" if "0 \<le> v" "v \<le> 100" for v :: real
    using that by (intro fl_progress) simp_all
  have b: "niceGridTicks doubleArith 0 100 5 = Some [0, 20, 40, 60, 80, 100]"
    using niceGridTicks_ticks[where A = doubleArith and mn = 0 and mx = 100 and count = 5,
            THEN conjunct2]
      niceGridTicks_double_100[unfolded doubleArith_def]
    by (simp add: doubleArith_def fl_tick_evals floor_log10_20 fin prog)
  from a b show ?thesis by simp
qed

text \<open>
  The claim as first stated puts every element within \<open>[min, max]\<close>. In double arithmetic
  with \<open>min\<close> the double next above \<open>3.6\<close>, \<open>max\<close> the double next to \<open>4.4\<close> and
  \<open>desiredCount = 5\<close> the nice step is the double next to \<open>0.2\<close>, the quotient
  \<open>min / niceStep\<close> rounds to \<open>18\<close>, and the first of the five ticks is the double next to
  \<open>3.6\<close>, below \<open>min\<close>.
\<close>

theorem niceGridTicks_below_min_counterexample:
  "niceGridTicks doubleArith (4053239664633447 / 1125899906842624)
       (2476979795053773 / 562949953421312) 5
     = Some [8106479329266893 / 2251799813685248, 8556839292003943 / 2251799813685248, 4,
             4728779608739021 / 1125899906842624, 2476979795053773 / 562949953421312]
   \<and> (0::real) < 2476979795053773 / 562949953421312 - 4053239664633447 / 1125899906842624
   \<and> (8106479329266893 / 2251799813685248 :: real) < 4053239664633447 / 1125899906842624"
  by (simp add: niceGridTicks_double_low)

text \<open>
  Where an addition is absorbed the call does not return: with \<open>min = 2^53\<close>,
  \<open>max = 2^53 + 2\<close> and \<open>desiredCount = 2\<close> the nice step is \<open>1\<close> and \<open>2^53 + 1\<close> rounds to
  \<open>2^53\<close>. In double arithmetic the empty result for \<open>max - min \<le> 0\<close> holds of the exact
  difference, since rounding keeps the sign.
\<close>

lemma niceGridTicks_double_stuck:
  "niceGridTicks doubleArith 9007199254740992 9007199254740994 2 = None"
  by (simp add: niceGridTicks_def Let_def fl_tick_evals tickLoop_stuck
        doubleArith_def niceStepOf_double_1[unfolded doubleArith_def])

lemma niceGridTicks_double_empty:
  "mx - mn \<le> 0 \<Longrightarrow> niceGridTicks doubleArith mn mx count = Some []"
  by (simp add: niceGridTicks_def doubleArith_def fl_nonpos)

subsection \<open>MomentumClassifier\<close>







text \<open>
  Outside the theorem's range of lookbacks the window is empty: the scan sees no value,
  and the comparison with the infinite threshold decides for \<open>up\<close>.
\<close>

lemma detectMomentum_empty_window:
  assumes "5 \<le> length data" and "lookback \<le> 0"
  shows "detectMomentum data dataKey lookback = Up"
proof -
  have "length data \<le> nat (max 0 (int (length data) - lookback))"
    using assms(2) by linarith
  then have "drop (nat (max 0 (int (length data) - lookback))) data = []" by simp
  with assms(1) show ?thesis by (simp add: detectMomentum_def Let_def)
qed

end
